theory Spec2Isabelle
  imports Main "HOL-Library.Char_ord" "HOL-Library.List_Lexorder" "HOL-Library.Multiset"
    "HOL-Library.Sublist" "HOL-Library.Word"
begin

section \<open>JavaScript values and objects\<close>

text \<open>
  The utilities of \<^verbatim>\<open>sign-verify-js-objs.ts\<close> work on plain JavaScript objects.
  A value is a primitive, a byte array (\<^verbatim>\<open>Uint8Array\<close>), or a container: a plain object
  or an array. Both containers are kept as the list of their own enumerable properties,
  name and value, in the order \<^verbatim>\<open>Object.keys\<close> lists them; an array's index names are
  the decimal strings, so an array with holes is an array whose list misses some index.
  Property names within one container are distinct.

  Limits of the model: \<^verbatim>\<open>flatten\<close> and \<^verbatim>\<open>unflatten\<close> list the properties they write in
  creation order (JavaScript lists names that are array indices first; the order of
  their output is not observed, its names are sorted or looked up); an object has no
  prototype of its own (what \<^verbatim>\<open>Object.prototype\<close> gives an object literal is written out
  where the code reads or assigns it); numbers are integers.
\<close>

type_synonym bytes = "8 word list"

datatype jsval =
    JUndefined
  | JNull
  | JBool bool
  | JNum int
  | JStr string
  | JBytes bytes
  | JArr "(string \<times> jsval) list"
  | JObj "(string \<times> jsval) list"

type_synonym props = "(string \<times> jsval) list"

text \<open>\<^verbatim>\<open>Object.keys(o)\<close> and \<^verbatim>\<open>o[k]\<close> (\<^verbatim>\<open>undefined\<close> when \<^verbatim>\<open>k\<close> is absent).\<close>

definition Object_keys :: "('k \<times> 'v) list \<Rightarrow> 'k list" where
  "Object_keys ps = map fst ps"

definition obj_get :: "props \<Rightarrow> string \<Rightarrow> jsval" where
  "obj_get ps k = (case map_of ps k of None \<Rightarrow> JUndefined | Some v \<Rightarrow> v)"

text \<open>
  \<^verbatim>\<open>m.set(k, v)\<close> on a \<^verbatim>\<open>Map\<close>, and \<^verbatim>\<open>o[k] = v\<close> on the objects that \<^verbatim>\<open>flatten\<close> and
  \<^verbatim>\<open>unflatten\<close> build: an existing entry keeps its place and takes the new value, a new
  entry goes to the end.
\<close>

fun obj_set :: "'k \<Rightarrow> 'v \<Rightarrow> ('k \<times> 'v) list \<Rightarrow> ('k \<times> 'v) list" where
  "obj_set k v [] = [(k, v)]"
| "obj_set k v ((k', v') # ps) =
     (if k = k' then (k, v) # ps else (k', v') # obj_set k v ps)"

text \<open>
  The own properties of an object as JavaScript lists them: the names that are array
  indices (the decimal numerals of the integers from 0 to 4294967294) first, in
  ascending order, then the other names in creation order. \<open>js_define\<close> is the definition of an
  own property, as a computed key of an object literal does it: an existing property
  keeps its place and takes the new value, a new index goes to its place among the
  indices, any other new name goes to the end.
\<close>

definition digit_value :: "char \<Rightarrow> nat" where
  "digit_value c = length (takeWhile (\<lambda>d. d \<noteq> c) ''0123456789'')"

definition digits_value :: "string \<Rightarrow> nat" where
  "digits_value s = foldl (\<lambda>a c. 10 * a + digit_value c) 0 s"

definition is_array_index :: "string \<Rightarrow> bool" where
  "is_array_index s =
     (s \<noteq> [] \<and> list_all (\<lambda>c. c \<in> set ''0123456789'') s \<and>
      (hd s \<noteq> CHR ''0'' \<or> s = ''0'') \<and> digits_value s < 4294967295)"

fun insert_index :: "string \<Rightarrow> 'v \<Rightarrow> (string \<times> 'v) list \<Rightarrow> (string \<times> 'v) list" where
  "insert_index k v [] = [(k, v)]"
| "insert_index k v ((k', v') # ps) =
     (if is_array_index k' \<and> digits_value k' < digits_value k
      then (k', v') # insert_index k v ps
      else (k, v) # (k', v') # ps)"

definition js_define :: "string \<Rightarrow> 'v \<Rightarrow> (string \<times> 'v) list \<Rightarrow> (string \<times> 'v) list" where
  "js_define k v ps =
     (if map_of ps k = None \<and> is_array_index k then insert_index k v ps else obj_set k v ps)"

text \<open>
  The property names of \<^verbatim>\<open>Object.prototype\<close>, which every object literal inherits. All are
  functions but \<^verbatim>\<open>__proto__\<close>, which is a getter and a setter for the prototype.
\<close>

definition Object_prototype_names :: "string list" where
  "Object_prototype_names =
     [''constructor'', ''__defineGetter__'', ''__defineSetter__'', ''hasOwnProperty'',
      ''__lookupGetter__'', ''__lookupSetter__'', ''isPrototypeOf'', ''propertyIsEnumerable'',
      ''toString'', ''valueOf'', ''__proto__'', ''toLocaleString'']"

text \<open>
  \<^verbatim>\<open>s[k] = v\<close> on an object made by an object literal. An own property takes the value.
  The name \<^verbatim>\<open>__proto__\<close>, when it is not an own property, reaches the setter of
  \<^verbatim>\<open>Object.prototype\<close>: no own property is written. (The setter replaces the prototype
  when \<open>v\<close> is an object or \<^verbatim>\<open>null\<close>; what is then read through the new prototype is
  outside the model.) Any other name is defined as an own property.
\<close>

definition js_assign :: "string \<Rightarrow> 'v \<Rightarrow> (string \<times> 'v) list \<Rightarrow> (string \<times> 'v) list" where
  "js_assign k v ps =
     (if k = ''__proto__'' \<and> map_of ps k = None then ps else js_define k v ps)"





text \<open>
  \<^verbatim>\<open>Object.prototype.toString.call(v)\<close> is \<^verbatim>\<open>[object Object]\<close> or \<^verbatim>\<open>[object Array]\<close>.
\<close>

fun is_container :: "jsval \<Rightarrow> bool" where
  "is_container (JObj ps) = True"
| "is_container (JArr ps) = True"
| "is_container _ = False"

fun own_props :: "jsval \<Rightarrow> props" where
  "own_props (JObj ps) = ps"
| "own_props (JArr ps) = ps"
| "own_props _ = []"

text \<open>\<^verbatim>\<open>xs[i]\<close> on an array: \<^verbatim>\<open>undefined\<close> (\<open>None\<close>) out of range.\<close>

definition js_nth :: "'a list \<Rightarrow> nat \<Rightarrow> 'a option" where
  "js_nth xs i = (if i < length xs then Some (xs ! i) else None)"

text \<open>\<^verbatim>\<open>xs.indexOf(x)\<close>: the first position of \<open>x\<close>; \<open>None\<close> stands for \<open>-1\<close>.\<close>

fun indexOf :: "'a list \<Rightarrow> 'a \<Rightarrow> nat option" where
  "indexOf [] x = None"
| "indexOf (y # ys) x = (if x = y then Some 0 else map_option Suc (indexOf ys x))"

subsection \<open>The \<^verbatim>\<open>flat\<close> package: \<^verbatim>\<open>flatten\<close>\<close>

text \<open>
  \<^verbatim>\<open>flatten\<close> walks the object depth first. A property whose value is a container with
  at least one property is entered, its path joined with \<^verbatim>\<open>.\<close>; every other property
  is written to the output object under its path. \<^verbatim>\<open>prev\<close> is the path so far; the
  package tests it for truthiness, so the empty path adds no delimiter.
\<close>

fun step :: "props \<Rightarrow> string \<Rightarrow> props \<Rightarrow> props" where
  "step [] prev output = output"
| "step ((key, v) # rest) prev output =
     (let newKey = (if prev = [] then key else prev @ ''.'' @ key) in
      step rest prev
        (case v of
           JObj ps \<Rightarrow> if ps \<noteq> [] then step ps newKey output else obj_set newKey v output
         | JArr ps \<Rightarrow> if ps \<noteq> [] then step ps newKey output else obj_set newKey v output
         | _ \<Rightarrow> obj_set newKey v output))"

definition flatten :: "jsval \<Rightarrow> props" where
  "flatten target = step (own_props target) [] []"

subsection \<open>The \<^verbatim>\<open>flat\<close> package: \<^verbatim>\<open>unflatten\<close>\<close>

text \<open>
  \<^verbatim>\<open>key.split('.')\<close>: the pieces between the delimiters; the empty string has one
  (empty) piece.
\<close>

fun split_on :: "char \<Rightarrow> string \<Rightarrow> string list" where
  "split_on d [] = [[]]"
| "split_on d (c # cs) =
     (if c = d then [] # split_on d cs
      else (case split_on d cs of [] \<Rightarrow> [[c]] | s # ss \<Rightarrow> (c # s) # ss))"

text \<open>
  What \<^verbatim>\<open>unflatten\<close> uses of the JavaScript language is a parameter of the model.
  \<^verbatim>\<open>getkey\<close> turns a path piece into a number when \<^verbatim>\<open>Number(piece)\<close> is not \<^verbatim>\<open>NaN\<close>:
  \<open>number_key s\<close> is \<open>None\<close> when \<^verbatim>\<open>Number(s)\<close> is \<^verbatim>\<open>NaN\<close>, and otherwise the property name
  that the number selects, \<^verbatim>\<open>String(Number(s))\<close>. A read \<^verbatim>\<open>recipient[key]\<close> also finds what the
  recipient does not hold as an enumerable property of its own: \<open>inherited arr k\<close> says
  that a read of \<open>k\<close> finds a value on every object (\<open>arr\<close> false) or on every array
  (\<open>arr\<close> true), as \<^verbatim>\<open>toString\<close> on both and \<^verbatim>\<open>length\<close> on an array. \<open>key_name\<close> is the
  property a piece reads and writes.
\<close>

record js_builtins =
  number_key :: "string \<Rightarrow> string option"
  inherited :: "bool \<Rightarrow> string \<Rightarrow> bool"

definition key_name :: "js_builtins \<Rightarrow> string \<Rightarrow> string" where
  "key_name js s = (case number_key js s of None \<Rightarrow> s | Some c \<Rightarrow> c)"

text \<open>
  The body of \<^verbatim>\<open>unflatten\<close>'s loop for one flat key, as a walk from the result object
  down the pieces of the key. \<open>ps\<close> holds the properties of the current recipient and
  \<open>arr\<close> says whether it is an array. With a piece \<open>s1\<close> that is not the last: the walk
  stops (leaving what it has built) at the name \<^verbatim>\<open>__proto__\<close> and where the read
  \<^verbatim>\<open>recipient[key1]\<close> gives a value that is neither a container nor \<^verbatim>\<open>undefined\<close>, be it
  a property of the recipient or something it inherits; it creates an array (next piece
  numeric) or an object where the read gives \<^verbatim>\<open>undefined\<close>; then it goes down. The last
  piece is assigned the value. (The package assigns \<^verbatim>\<open>unflatten(value)\<close>; the values at
  this point are no containers or have no properties, and for those \<^verbatim>\<open>unflatten\<close> gives
  the value back. An assignment to \<^verbatim>\<open>__proto__\<close> or to the \<^verbatim>\<open>length\<close> of an array is not
  an ordinary assignment in JavaScript; the model writes a property.)
\<close>

fun set_path :: "js_builtins \<Rightarrow> bool \<Rightarrow> string list \<Rightarrow> jsval \<Rightarrow> props \<Rightarrow> props" where
  "set_path js arr [] v ps = ps"
| "set_path js arr [s] v ps = obj_set (key_name js s) v ps"
| "set_path js arr (s1 # s2 # rest) v ps =
     (let key1 = key_name js s1 in
      if number_key js s1 = None \<and> s1 = ''__proto__'' then ps
      else if map_of ps key1 = None \<and> inherited js arr key1 then ps
      else (case obj_get ps key1 of
              JObj cps \<Rightarrow> obj_set key1 (JObj (set_path js False (s2 # rest) v cps)) ps
            | JArr cps \<Rightarrow> obj_set key1 (JArr (set_path js True (s2 # rest) v cps)) ps
            | JUndefined \<Rightarrow>
                (if number_key js s2 \<noteq> None
                 then obj_set key1 (JArr (set_path js True (s2 # rest) v [])) ps
                 else obj_set key1 (JObj (set_path js False (s2 # rest) v [])) ps)
            | _ \<Rightarrow> ps))"

text \<open>
  Before the loop \<^verbatim>\<open>unflatten\<close> rewrites its target: a value that is a container with
  properties is flattened and its entries are added under the prefixed names
  (\<^verbatim>\<open>addDelimiter\<close>); any other value is kept. An array counts as empty here when it has
  no property.
\<close>

definition addDelimiter :: "string \<Rightarrow> string \<Rightarrow> string" where
  "addDelimiter keyPrefix key = (if keyPrefix = [] then key else keyPrefix @ ''.'' @ key)"

definition unflatten_reduce :: "props \<Rightarrow> props" where
  "unflatten_reduce target =
     fold (\<lambda>(key, v) result.
             if \<not> is_container v \<or> own_props v = [] then obj_set key v result
             else fold (\<lambda>(k, v') r. obj_set (addDelimiter key k) v' r) (flatten v) result)
          target []"

definition unflatten :: "js_builtins \<Rightarrow> jsval \<Rightarrow> jsval" where
  "unflatten js target =
     (case target of
        JObj ps \<Rightarrow>
          JObj (fold (\<lambda>(key, v) result. set_path js False (split_on CHR ''.'' key) v result)
                  (unflatten_reduce ps) [])
      | _ \<Rightarrow> target)"

subsection \<open>Paths and leaves\<close>

text \<open>
  Notions for reasoning about \<^verbatim>\<open>flatten\<close> and \<^verbatim>\<open>unflatten\<close>; none of them is code of the
  package. A leaf is a value that \<^verbatim>\<open>flatten\<close> does not enter. \<open>leaves\<close> lists the leaves
  of an object depth first, each with the list of property names that lead to it;
  \<open>path_name\<close> is the name \<^verbatim>\<open>flatten\<close> gives such a path, and \<open>join_dot\<close> joins the pieces
  with the delimiter. \<open>wf_props\<close> says that the property names of every container are
  distinct.
\<close>

definition is_leaf :: "jsval \<Rightarrow> bool" where
  "is_leaf v = (own_props v = [])"

fun leaves :: "props \<Rightarrow> (string list \<times> jsval) list" where
  "leaves [] = []"
| "leaves ((key, v) # rest) =
     (case v of
        JObj ps \<Rightarrow> if ps \<noteq> [] then map (\<lambda>(p, x). (key # p, x)) (leaves ps) else [([key], v)]
      | JArr ps \<Rightarrow> if ps \<noteq> [] then map (\<lambda>(p, x). (key # p, x)) (leaves ps) else [([key], v)]
      | _ \<Rightarrow> [([key], v)])
     @ leaves rest"

fun wf_props :: "props \<Rightarrow> bool" where
  "wf_props [] = True"
| "wf_props ((key, v) # rest) =
     (key \<notin> fst ` set rest \<and>
      (case v of JObj ps \<Rightarrow> wf_props ps | JArr ps \<Rightarrow> wf_props ps | _ \<Rightarrow> True) \<and>
      wf_props rest)"

fun join_dot :: "string list \<Rightarrow> string" where
  "join_dot [] = []"
| "join_dot [s] = s"
| "join_dot (s # t # r) = s @ ''.'' @ join_dot (t # r)"

definition path_name :: "string \<Rightarrow> string list \<Rightarrow> string" where
  "path_name prev p = foldl (\<lambda>prev key. if prev = [] then key else prev @ ''.'' @ key) prev p"

text \<open>
  The names for which \<^verbatim>\<open>unflatten\<close> rebuilds what \<^verbatim>\<open>flatten\<close> took apart. A piece of a
  name is plain when it is not empty, is not \<^verbatim>\<open>__proto__\<close>, is the property it selects
  (\<^verbatim>\<open>Number\<close> does not read it, or reads it and writes it back unchanged), and is not a
  name that objects or arrays inherit. The
  names of a list are proper paths when all their pieces are plain and no name's pieces
  are an initial part of another name's pieces.
\<close>

definition plain_seg :: "js_builtins \<Rightarrow> string \<Rightarrow> bool" where
  "plain_seg js s =
     (s \<noteq> [] \<and> s \<noteq> ''__proto__'' \<and> key_name js s = s \<and>
      \<not> inherited js False s \<and> \<not> inherited js True s)"

definition segs :: "string \<Rightarrow> string list" where
  "segs n = split_on CHR ''.'' n"

definition proper_paths :: "js_builtins \<Rightarrow> string list \<Rightarrow> bool" where
  "proper_paths js names =
     ((\<forall>n\<in>set names. \<forall>s\<in>set (segs n). plain_seg js s) \<and>
      (\<forall>n\<in>set names. \<forall>n'\<in>set names. n \<noteq> n' \<longrightarrow> \<not> prefix (segs n) (segs n')))"

text \<open>
  An object whose property names, at every depth, are plain and free of the delimiter has
  proper paths for names: \<^verbatim>\<open>flatten\<close> joins the property names on the way to a leaf,
  and splitting gives them back.
\<close>

fun plain_props :: "js_builtins \<Rightarrow> props \<Rightarrow> bool" where
  "plain_props js [] = True"
| "plain_props js ((key, v) # rest) =
     (plain_seg js key \<and> CHR ''.'' \<notin> set key \<and>
      (case v of JObj ps \<Rightarrow> plain_props js ps | JArr ps \<Rightarrow> plain_props js ps | _ \<Rightarrow> True) \<and>
      plain_props js rest)"

section \<open>Errors\<close>

text \<open>
  Every \<^verbatim>\<open>throw\<close> of the code is a value: the three errors of
  \<^verbatim>\<open>sign-verify-js-objs.ts\<close>, the error of \<^verbatim>\<open>CredentialBuilder.sign\<close>, the
  \<^verbatim>\<open>TypeError\<close> of a method call on \<^verbatim>\<open>undefined\<close>, whatever an encoder or a signing
  primitive raises, and the two rejections of the accumulator state.
\<close>

datatype error =
    RevealedNamesNotFound int
  | MessageNameNotFound string
  | MissingBlinding int
  | MissingSchemaFields
  | TypeError
  | EncoderError string
  | CryptoError string
  | DuplicateMember
  | NotAMember

text \<open>Running a fallible function over a list stops at the first error.\<close>

fun map_result :: "('a \<Rightarrow> 'e + 'b) \<Rightarrow> 'a list \<Rightarrow> 'e + 'b list" where
  "map_result f [] = Inr []"
| "map_result f (x # xs) =
     (case f x of
        Inl e \<Rightarrow> Inl e
      | Inr y \<Rightarrow> (case map_result f xs of Inl e \<Rightarrow> Inl e | Inr ys \<Rightarrow> Inr (y # ys)))"

section \<open>The encoder\<close>

text \<open>
  An encoder is its method \<^verbatim>\<open>encodeMessage(name, value)\<close>, which gives the field element
  of one leaf or throws.
\<close>

type_synonym encoder = "string \<Rightarrow> jsval \<Rightarrow> error + bytes"

text \<open>
  Modelled from the spec: \<^verbatim>\<open>Encoder.encodeMessageObject\<close> (\<^verbatim>\<open>src/encoder.ts\<close> is not among
  the sources). The spec's \<^verbatim>\<open>encode\<close> returns the ordered path names, "the
  lexicographically sorted flattening of the object's keys", and the ordered encoded
  messages, each leaf encoded by its name's transform; an encoding error aborts.
\<close>

definition encodeMessageObject :: "encoder \<Rightarrow> jsval \<Rightarrow> error + (string list \<times> bytes list)" where
  "encodeMessageObject enc messages =
     (let flattened = flatten messages;
          names = sort (Object_keys flattened)
      in case map_result (\<lambda>n. enc n (obj_get flattened n)) names of
           Inl e \<Rightarrow> Inl e
         | Inr encodedValues \<Rightarrow> Inr (names, encodedValues))"

section \<open>\<^verbatim>\<open>sign-verify-js-objs.ts\<close>\<close>

text \<open>
  A \<^verbatim>\<open>MessageStructure\<close> is an object whose leaves are \<^verbatim>\<open>null\<close>; TypeScript's types are
  erased, so it is a \<open>jsval\<close> like the messages. A \<^verbatim>\<open>Set<string>\<close> is the list of its
  elements in insertion order, without repetition; a \<^verbatim>\<open>Map\<close> is the list of its entries
  in insertion order, with distinct keys. \<^verbatim>\<open>Array.prototype.sort()\<close> on strings is the
  lexicographic order on characters, \<open>sort\<close>.
\<close>

definition flattenMessageStructure :: "jsval \<Rightarrow> props" where
  "flattenMessageStructure msgStructure = flatten msgStructure"

text \<open>
  The loop of \<^verbatim>\<open>getRevealedAndUnrevealed\<close>, one round for index \<open>i\<close>; the state is the two
  maps and the counter \<open>found\<close>.
\<close>

definition reveal_step ::
  "string list \<Rightarrow> bytes list \<Rightarrow> string list \<Rightarrow> nat \<Rightarrow>
   (nat \<times> bytes) list \<times> (nat \<times> bytes) list \<times> nat \<Rightarrow>
   (nat \<times> bytes) list \<times> (nat \<times> bytes) list \<times> nat" where
  "reveal_step names encodedValues revealedMsgNames i st =
     (case st of (revealedMsgs, unrevealedMsgs, found) \<Rightarrow>
        if names ! i \<in> set revealedMsgNames
        then (obj_set i (encodedValues ! i) revealedMsgs, unrevealedMsgs, found + 1)
        else (revealedMsgs, obj_set i (encodedValues ! i) unrevealedMsgs, found))"

definition getRevealedAndUnrevealed ::
  "js_builtins \<Rightarrow> jsval \<Rightarrow> string list \<Rightarrow> encoder \<Rightarrow>
   error + ((nat \<times> bytes) list \<times> (nat \<times> bytes) list \<times> jsval)" where
  "getRevealedAndUnrevealed js messages revealedMsgNames enc =
     (case encodeMessageObject enc messages of
        Inl e \<Rightarrow> Inl e
      | Inr (names, encodedValues) \<Rightarrow>
          (case fold (reveal_step names encodedValues revealedMsgNames)
                  [0 ..< length names] ([], [], 0) of
             (revealedMsgs, unrevealedMsgs, found) \<Rightarrow>
               if length revealedMsgNames \<noteq> found
               then Inl (RevealedNamesNotFound (int (length revealedMsgNames) - int found))
               else
                 (let flattened = flatten messages;
                      revealedMsgsRaw =
                        fold (\<lambda>n raw. obj_set n (obj_get flattened n) raw) revealedMsgNames []
                  in Inr (revealedMsgs, unrevealedMsgs, unflatten js (JObj revealedMsgsRaw)))))"

text \<open>\<^verbatim>\<open>encodeRevealedMsgs\<close>: the \<^verbatim>\<open>forEach\<close> over the entries of the flattened revealed object.\<close>

fun encodeRevealed_loop ::
  "encoder \<Rightarrow> string list \<Rightarrow> props \<Rightarrow> (nat \<times> bytes) list \<Rightarrow> error + (nat \<times> bytes) list" where
  "encodeRevealed_loop enc names [] revealed = Inr revealed"
| "encodeRevealed_loop enc names ((n, v) # rest) revealed =
     (case indexOf names n of
        None \<Rightarrow> Inl (MessageNameNotFound n)
      | Some i \<Rightarrow>
          (case enc n v of
             Inl e \<Rightarrow> Inl e
           | Inr b \<Rightarrow> encodeRevealed_loop enc names rest (obj_set i b revealed)))"

definition encodeRevealedMsgs :: "jsval \<Rightarrow> jsval \<Rightarrow> encoder \<Rightarrow> error + (nat \<times> bytes) list" where
  "encodeRevealedMsgs revealedMsgsRaw msgStructure enc =
     (let names = sort (Object_keys (flattenMessageStructure msgStructure));
          flattenedRevealed = flatten revealedMsgsRaw
      in encodeRevealed_loop enc names flattenedRevealed [])"

text \<open>
  \<^verbatim>\<open>isValidMsgStructure\<close>: the loop runs while \<^verbatim>\<open>i <= namesInMsgs.length\<close>, so its last round
  reads both arrays one past their end.
\<close>

function isValid_loop :: "string list \<Rightarrow> string list \<Rightarrow> nat \<Rightarrow> bool" where
  "isValid_loop namesInStruct namesInMsgs i =
     (if i \<le> length namesInMsgs
      then (if js_nth namesInStruct i \<noteq> js_nth namesInMsgs i then False
            else isValid_loop namesInStruct namesInMsgs (i + 1))
      else True)"
  by pat_completeness auto
termination
  by (relation "measure (\<lambda>(s, m, i). Suc (length m) - i)") auto

declare isValid_loop.simps [simp del]

definition isValidMsgStructure :: "jsval \<Rightarrow> jsval \<Rightarrow> bool" where
  "isValidMsgStructure messages msgStructure =
     (let namesInStruct = sort (Object_keys (flattenMessageStructure msgStructure));
          namesInMsgs = sort (Object_keys (flatten messages))
      in length namesInMsgs = length namesInStruct \<and> isValid_loop namesInStruct namesInMsgs 0)"

definition getIndicesForMsgNames :: "string list \<Rightarrow> jsval \<Rightarrow> error + nat list" where
  "getIndicesForMsgNames msgNames msgStructure =
     (let allNames = sort (Object_keys (flattenMessageStructure msgStructure))
      in map_result
           (\<lambda>n. case indexOf allNames n of None \<Rightarrow> Inl (MessageNameNotFound n) | Some i \<Rightarrow> Inr i)
           msgNames)"

text \<open>
  The spec's CanonicalIndex, in its own words: "the position of a leaf path within the
  lexicographically sorted list of flattened paths", that is the number of leaf paths below
  it. It is stated without the code's \<^verbatim>\<open>sort\<close> and \<^verbatim>\<open>indexOf\<close>, to be compared with them.
\<close>

definition CanonicalIndex :: "jsval \<Rightarrow> string \<Rightarrow> nat option" where
  "CanonicalIndex msgStructure path =
     (let paths = Object_keys (flattenMessageStructure msgStructure)
      in if path \<in> set paths then Some (length (filter (\<lambda>p. p < path) paths)) else None)"

text \<open>
  Modelled from the spec: \<^verbatim>\<open>WitnessEqualityMetaStatement\<close> (\<^verbatim>\<open>composite-proof/statement.ts\<close>
  is not among the sources). The spec's equality MetaStatement is "a set of
  (statementIndex, messageIndex) pairs asserted equal"; \<^verbatim>\<open>addWitnessRef\<close> adds one pair.
\<close>

type_synonym WitnessEqualityMetaStatement = "(int \<times> nat) set"

definition addWitnessRef ::
  "int \<Rightarrow> nat \<Rightarrow> WitnessEqualityMetaStatement \<Rightarrow> WitnessEqualityMetaStatement" where
  "addWitnessRef statementIndex witnessIndex ms = insert (statementIndex, witnessIndex) ms"

fun createWitnessEquality_loop ::
  "(int \<times> string list \<times> jsval) list \<Rightarrow> WitnessEqualityMetaStatement \<Rightarrow>
   error + WitnessEqualityMetaStatement" where
  "createWitnessEquality_loop [] ms = Inr ms"
| "createWitnessEquality_loop ((sIdx, names, struct) # rest) ms =
     (case getIndicesForMsgNames names struct of
        Inl e \<Rightarrow> Inl e
      | Inr indices \<Rightarrow>
          createWitnessEquality_loop rest (fold (\<lambda>i m. addWitnessRef sIdx i m) indices ms))"

definition createWitnessEqualityMetaStatement ::
  "(int \<times> string list \<times> jsval) list \<Rightarrow> error + WitnessEqualityMetaStatement" where
  "createWitnessEqualityMetaStatement equality = createWitnessEquality_loop equality {}"

text \<open>
  The witnesses of a blind signature request. \<^verbatim>\<open>Witness.pedersenCommitment\<close> belongs to
  the proof engine and is the parameter \<open>pedersenCommitment\<close>. The comparator
  \<^verbatim>\<open>([a], [b]) => a - b\<close> orders the entries by message index; JavaScript's sort is
  stable, like \<open>sort_key\<close>.
\<close>

definition getBBSWitnessForBlindSigRequest ::
  "(bytes list \<Rightarrow> 'w) \<Rightarrow> (int \<times> bytes) list \<Rightarrow> 'w" where
  "getBBSWitnessForBlindSigRequest pedersenCommitment messages =
     (let sortedMessages = sort_key fst messages
      in pedersenCommitment (map snd sortedMessages))"

definition getBBSPlusWitnessForBlindSigRequest ::
  "(bytes list \<Rightarrow> 'w) \<Rightarrow> (int \<times> bytes) list \<Rightarrow> bytes \<Rightarrow> 'w" where
  "getBBSPlusWitnessForBlindSigRequest pedersenCommitment messages blinding =
     (let sortedMessages = sort_key fst messages
      in pedersenCommitment (blinding # map snd sortedMessages))"

definition getPSWitnessesForBlindSigRequest ::
  "(bytes list \<Rightarrow> 'w) \<Rightarrow> (int \<times> bytes) list \<Rightarrow> bytes \<Rightarrow> (int \<times> bytes) list \<Rightarrow>
   error + 'w list" where
  "getPSWitnessesForBlindSigRequest pedersenCommitment messages blinding blindings =
     (let sortedMessages = sort_key fst messages;
          first = pedersenCommitment (blinding # map snd sortedMessages)
      in case map_result
                (\<lambda>(idx, msg). case map_of blindings idx of
                                  None \<Rightarrow> Inl (MissingBlinding idx)
                                | Some b \<Rightarrow> Inr (pedersenCommitment [b, msg]))
                sortedMessages of
           Inl e \<Rightarrow> Inl e
         | Inr others \<Rightarrow> Inr (first # others))"

section \<open>Credentials\<close>

text \<open>
  \<^verbatim>\<open>types-and-consts.ts\<close> is not among the sources: the field names of a serialized
  credential, the proof type of each signature scheme and the default label of the
  signature parameters are parameters, held in one record.
\<close>

datatype SignatureType = Bbs | BbsPlus | Ps | Bddt16

record credential_consts =
  CRYPTO_VERSION_STR :: string
  SCHEMA_STR :: string
  SUBJECT_STR :: string
  STATUS_STR :: string
  PROOF_STR :: string
  CRED_PROOF_TYPE :: "SignatureType \<Rightarrow> string"
  SIGNATURE_PARAMS_LABEL_BYTES :: bytes

text \<open>
  Of a \<^verbatim>\<open>CredentialSchema\<close> (\<^verbatim>\<open>schema.ts\<close> is not among the sources) the code reads its
  JSON rendering (\<^verbatim>\<open>toJsonString()\<close>, \<^verbatim>\<open>JSON.stringify(toJSON())\<close>), the list of names
  \<^verbatim>\<open>flatten()[0]\<close> and its encoder.
\<close>

record CredentialSchema =
  toJsonString :: string
  schema_flatten_names :: "string list"
  schema_encoder :: encoder

record 'sig Credential =
  version :: string
  schema :: "CredentialSchema option"
  subject :: jsval
  topLevelFields :: props
  cred_signature :: 'sig
  credentialStatus :: jsval




subsection \<open>\<^verbatim>\<open>CredentialBuilder\<close>\<close>

record 'sig CredentialBuilder =
  builder_version :: string
  builder_schema :: "CredentialSchema option"
  builder_subject :: jsval
  builder_credStatus :: jsval
  builder_encodedAttributes :: "(string \<times> bytes) list option"
  builder_topLevelFields :: props
  builder_sig :: "'sig option"

text \<open>
  \<^verbatim>\<open>CredentialBuilder.serializeForSigning\<close>: the same literal, loop and status as in
  \<^verbatim>\<open>Credential\<close>; it applies no proof metadata and deletes nothing.
\<close>

definition CredentialBuilder_serializeForSigning ::
  "credential_consts \<Rightarrow> 'sig CredentialBuilder \<Rightarrow> jsval" where
  "CredentialBuilder_serializeForSigning c b =
     (let s0 = js_define (SUBJECT_STR c) (builder_subject b)
                 (js_define (SCHEMA_STR c)
                    (case builder_schema b of
                       None \<Rightarrow> JUndefined | Some sc \<Rightarrow> JStr (toJsonString sc))
                    (js_define (CRYPTO_VERSION_STR c) (JStr (builder_version b)) []));
          s1 = fold (\<lambda>(k, v) s. js_assign k v s) (builder_topLevelFields b) s0
      in JObj (if builder_credStatus b \<noteq> JUndefined
               then js_assign (STATUS_STR c) (builder_credStatus b) s1 else s1))"

text \<open>
  Modelled from the spec: \<^verbatim>\<open>areArraysEqual\<close> (\<^verbatim>\<open>tests/utils.ts\<close> is not among the sources).
  The spec's check is that the serialized field set "exactly matches" the schema's
  declared leaves: the two arrays are equal element by element.
\<close>

definition areArraysEqual :: "string list \<Rightarrow> string list \<Rightarrow> bool" where
  "areArraysEqual arr1 arr2 = (arr1 = arr2)"

definition hasAllFieldsFromSchema :: "jsval \<Rightarrow> CredentialSchema \<Rightarrow> bool" where
  "hasAllFieldsFromSchema serializedCred sc =
     areArraysEqual (schema_flatten_names sc) (sort (Object_keys (flatten serializedCred)))"

text \<open>
  \<^verbatim>\<open>sign\<close>. The signing primitive \<^verbatim>\<open>signMessageObject\<close> is a parameter; each call of it is
  recorded, so the result of \<^verbatim>\<open>sign\<close> is the list of the cryptographic calls made and
  either the error thrown or the updated builder with the credential.
\<close>

record 'sig SignedMessages =
  encodedMessages :: "(string \<times> bytes) list"
  signature :: 'sig

datatype ('sk, 'p) crypto_call = SignMessageObject jsval 'sk "'p + bytes"

definition sign ::
  "credential_consts \<Rightarrow>
   (jsval \<Rightarrow> 'sk \<Rightarrow> 'p + bytes \<Rightarrow> encoder \<Rightarrow> error + 'sig SignedMessages) \<Rightarrow>
   'sig CredentialBuilder \<Rightarrow> 'sk \<Rightarrow> 'p option \<Rightarrow>
   ('sk, 'p) crypto_call list \<times> (error + 'sig CredentialBuilder \<times> 'sig Credential)" where
  "sign c signMessageObject b secretKey signatureParams =
     (let cred = CredentialBuilder_serializeForSigning c b in
      case builder_schema b of
        None \<Rightarrow> ([], Inl TypeError)
      | Some sc \<Rightarrow>
          if \<not> hasAllFieldsFromSchema cred sc then ([], Inl MissingSchemaFields)
          else
            (let params = (case signatureParams of
                             Some p \<Rightarrow> Inl p
                           | None \<Rightarrow> Inr (SIGNATURE_PARAMS_LABEL_BYTES c))
             in case signMessageObject cred secretKey params (schema_encoder sc) of
                  Inl e \<Rightarrow> ([SignMessageObject cred secretKey params], Inl e)
                | Inr signedMsgs \<Rightarrow>
                    ([SignMessageObject cred secretKey params],
                     Inr (b\<lparr>builder_encodedAttributes := Some (encodedMessages signedMsgs),
                             builder_sig := Some (signature signedMsgs)\<rparr>,
                          \<lparr>version = builder_version b, schema = Some sc,
                           subject = builder_subject b,
                           topLevelFields = builder_topLevelFields b,
                           cred_signature = signature signedMsgs,
                           credentialStatus = builder_credStatus b\<rparr>))))"

section \<open>The accumulator state\<close>

text \<open>
  Modelled from the spec: the accumulator and its state store (\<^verbatim>\<open>src/accumulator\<close> is not
  among the sources; only its test is). The spec's contract: the store answers
  \<^verbatim>\<open>has(member)\<close>, it "must reject duplicate adds and removal of non-members", a batch
  applies its members one by one, and "a failed cryptographic update does not leave the
  store mutated". An operation returns its outcome and the state after it.
\<close>

definition accumulator_add :: "'m \<Rightarrow> 'm set \<Rightarrow> (error + unit) \<times> 'm set" where
  "accumulator_add member state =
     (if member \<in> state then (Inl DuplicateMember, state) else (Inr (), insert member state))"

definition accumulator_remove :: "'m \<Rightarrow> 'm set \<Rightarrow> (error + unit) \<times> 'm set" where
  "accumulator_remove member state =
     (if member \<notin> state then (Inl NotAMember, state) else (Inr (), state - {member}))"

fun apply_members ::
  "('m \<Rightarrow> 'm set \<Rightarrow> (error + unit) \<times> 'm set) \<Rightarrow> 'm list \<Rightarrow> 'm set \<Rightarrow> error + 'm set" where
  "apply_members f [] state = Inr state"
| "apply_members f (m # ms) state =
     (case f m state of
        (Inl e, _) \<Rightarrow> Inl e
      | (Inr _, state') \<Rightarrow> apply_members f ms state')"

definition accumulator_addBatch :: "'m list \<Rightarrow> 'm set \<Rightarrow> (error + unit) \<times> 'm set" where
  "accumulator_addBatch members state =
     (case apply_members accumulator_add members state of
        Inl e \<Rightarrow> (Inl e, state)
      | Inr state' \<Rightarrow> (Inr (), state'))"

definition accumulator_removeBatch :: "'m list \<Rightarrow> 'm set \<Rightarrow> (error + unit) \<times> 'm set" where
  "accumulator_removeBatch members state =
     (case apply_members accumulator_remove members state of
        Inl e \<Rightarrow> (Inl e, state)
      | Inr state' \<Rightarrow> (Inr (), state'))"

section \<open>Example data\<close>

text \<open>
  Inputs for the concrete instances below: an encoder that takes byte arrays as they are
  and strings by their characters; JavaScript built-ins that read the unsigned decimal
  numerals (and the empty string, which \<^verbatim>\<open>Number\<close> reads as 0) and know the property names
  of \<^verbatim>\<open>Object.prototype\<close> and \<^verbatim>\<open>Array.prototype\<close>; and the five attributes of the test of
  \<^verbatim>\<open>src/unnamed/part_000\<close> with their structure.
\<close>

definition utf8_encoder :: encoder where
  "utf8_encoder n v =
     (case v of
        JStr s \<Rightarrow> Inr (map (\<lambda>c. of_nat (of_char c)) s)
      | JBytes b \<Rightarrow> Inr b
      | _ \<Rightarrow> Inl (EncoderError n))"

definition decimal_key :: "string \<Rightarrow> string option" where
  "decimal_key s =
     (if list_all (\<lambda>c. c \<in> set ''0123456789'') s
      then Some (case dropWhile (\<lambda>c. c = CHR ''0'') s of [] \<Rightarrow> ''0'' | t \<Rightarrow> t)
      else None)"

definition Array_prototype_names :: "string list" where
  "Array_prototype_names =
     [''length'', ''at'', ''concat'', ''copyWithin'', ''fill'', ''find'', ''findIndex'',
      ''findLast'', ''findLastIndex'', ''lastIndexOf'', ''pop'', ''push'', ''reverse'',
      ''shift'', ''unshift'', ''slice'', ''sort'', ''splice'', ''includes'', ''indexOf'',
      ''join'', ''keys'', ''entries'', ''values'', ''forEach'', ''filter'', ''flat'',
      ''flatMap'', ''map'', ''every'', ''some'', ''reduce'', ''reduceRight'']"

definition example_js :: js_builtins where
  "example_js =
     \<lparr>number_key = decimal_key,
      inherited = (\<lambda>arr k. k \<in> set Object_prototype_names \<or>
                             (arr \<and> k \<in> set Array_prototype_names))\<rparr>"

definition attributes :: jsval where
  "attributes = JObj [(''ssn'', JStr ''123-456789-0''), (''fname'', JStr ''John''),
     (''lname'', JStr ''Smith''), (''email'', JStr ''john.smith@emample.com''),
     (''city'', JStr ''New York'')]"

definition attributesStruct :: jsval where
  "attributesStruct = JObj [(''ssn'', JNull), (''fname'', JNull), (''lname'', JNull),
     (''email'', JNull), (''city'', JNull)]"

text \<open>
  For the credentials: values of the constants, a schema whose leaves are those of the
  builder below, a builder, and a signing primitive that always signs.
\<close>

definition example_consts :: credential_consts where
  "example_consts =
     \<lparr>CRYPTO_VERSION_STR = ''cryptoVersion'', SCHEMA_STR = ''credentialSchema'',
      SUBJECT_STR = ''credentialSubject'', STATUS_STR = ''credentialStatus'',
      PROOF_STR = ''proof'', CRED_PROOF_TYPE = (\<lambda>t. ''Bls12381BBSSignatureDock2023''),
      SIGNATURE_PARAMS_LABEL_BYTES = [1, 2, 3]\<rparr>"

definition example_schema :: CredentialSchema where
  "example_schema =
     \<lparr>toJsonString = ''{}'',
      schema_flatten_names =
        [''credentialSchema'', ''credentialSubject.fname'', ''cryptoVersion''],
      schema_encoder = utf8_encoder\<rparr>"

definition example_builder :: "unit CredentialBuilder" where
  "example_builder =
     \<lparr>builder_version = ''0.0.1'', builder_schema = Some example_schema,
      builder_subject = JObj [(''fname'', JStr ''John'')], builder_credStatus = JUndefined,
      builder_encodedAttributes = None, builder_topLevelFields = [], builder_sig = None\<rparr>"


definition example_signer ::
  "jsval \<Rightarrow> unit \<Rightarrow> unit + bytes \<Rightarrow> encoder \<Rightarrow> error + unit SignedMessages" where
  "example_signer cred sk params enc = Inr \<lparr>encodedMessages = [], signature = ()\<rparr>"



text \<open>
  An object with a nested name, for the round trip, and one with a property name that
  contains the delimiter.
\<close>

definition nested_attributes :: jsval where
  "nested_attributes =
     JObj [(''ssn'', JStr ''123''),
           (''name'', JObj [(''first'', JStr ''John''), (''last'', JStr ''Smith'')]),
           (''city'', JStr ''NY'')]"

definition nested_attributesStruct :: jsval where
  "nested_attributesStruct =
     JObj [(''city'', JNull), (''name'', JObj [(''last'', JNull), (''first'', JNull)]),
           (''ssn'', JNull)]"

definition dotted_attributes :: jsval where
  "dotted_attributes = JObj [(''a'', JStr ''x''), (''a.b'', JStr ''y'')]"

definition dotted_attributesStruct :: jsval where
  "dotted_attributesStruct = JObj [(''a'', JNull), (''a.b'', JNull)]"

section \<open>Auxiliary facts\<close>

lemmas eval_defs = getRevealedAndUnrevealed_def encodeMessageObject_def flatten_def
  Object_keys_def utf8_encoder_def obj_get_def reveal_step_def unflatten_def
  unflatten_reduce_def key_name_def example_js_def decimal_key_def Object_prototype_names_def Array_prototype_names_def Let_def upt_rec attributes_def
  attributesStruct_def getIndicesForMsgNames_def flattenMessageStructure_def

lemma isValid_loop_iff:
  "isValid_loop s m i = (\<forall>j. i \<le> j \<and> j \<le> length m \<longrightarrow> js_nth s j = js_nth m j)"
proof (induction s m i rule: isValid_loop.induct)
  case (1 s m i)
  show ?case
  proof (cases "i \<le> length m")
    case False
    then show ?thesis by (subst isValid_loop.simps) auto
  next
    case True
    show ?thesis
    proof (cases "js_nth s i = js_nth m i")
      case False
      with True show ?thesis by (subst isValid_loop.simps) auto
    next
      case eq: True
      have "isValid_loop s m i = isValid_loop s m (i + 1)"
        using True eq by (subst isValid_loop.simps) simp
      also have "\<dots> = (\<forall>j. i + 1 \<le> j \<and> j \<le> length m \<longrightarrow> js_nth s j = js_nth m j)"
        using 1 True eq by simp
      also have "\<dots> = (\<forall>j. i \<le> j \<and> j \<le> length m \<longrightarrow> js_nth s j = js_nth m j)"
      proof -
        have "\<And>j. i \<le> j \<longleftrightarrow> j = i \<or> i + 1 \<le> j" by auto
        then show ?thesis using eq by metis
      qed
      finally show ?thesis .
    qed
  qed
qed

lemma isValid_loop_same_length:
  assumes "length m = length s"
  shows "isValid_loop s m 0 = (s = m)"
proof -
  have "isValid_loop s m 0 = (\<forall>j\<le>length m. js_nth s j = js_nth m j)"
    by (simp add: isValid_loop_iff)
  also have "\<dots> = (\<forall>j<length m. s ! j = m ! j)"
    using assms by (auto simp: js_nth_def split: if_splits) 
  also have "\<dots> = (s = m)"
    using assms by (auto simp: list_eq_iff_nth_eq)
  finally show ?thesis .
qed

lemma isValidMsgStructure_iff:
  "isValidMsgStructure messages msgStructure \<longleftrightarrow>
     sort (Object_keys (flatten messages)) = sort (Object_keys (flattenMessageStructure msgStructure))"
proof -
  let ?s = "sort (Object_keys (flattenMessageStructure msgStructure))"
  let ?m = "sort (Object_keys (flatten messages))"
  have "isValidMsgStructure messages msgStructure = (length ?m = length ?s \<and> isValid_loop ?s ?m 0)"
    by (simp add: isValidMsgStructure_def Let_def)
  also have "\<dots> = (length ?m = length ?s \<and> ?s = ?m)"
    using isValid_loop_same_length[of ?m ?s] by blast
  also have "\<dots> = (?m = ?s)" by (metis (no_types))
  finally show ?thesis .
qed

lemma last_round: "length m = length s \<Longrightarrow> isValid_loop s m (length m)"
  by (simp add: isValid_loop_iff js_nth_def)

lemma indexOf_None_iff: "indexOf xs x = None \<longleftrightarrow> x \<notin> set xs"
  by (induction xs) auto

lemma indexOf_Some_iff:
  "indexOf xs x = Some i \<longleftrightarrow> i < length xs \<and> xs ! i = x \<and> (\<forall>j<i. xs ! j \<noteq> x)"
proof (induction xs arbitrary: i)
  case Nil
  then show ?case by simp
next
  case (Cons y ys)
  show ?case
  proof (cases "x = y")
    case True
    then show ?thesis by (cases i) auto
  next
    case False
    show ?thesis
    proof (cases i)
      case 0
      with False show ?thesis by auto
    next
      case (Suc k)
      have "(\<forall>j<Suc k. (y # ys) ! j \<noteq> x) = (\<forall>j<k. ys ! j \<noteq> x)"
        using False by (auto simp: less_Suc_eq_0_disj)
      with Suc False Cons.IH[of k] show ?thesis by auto
    qed
  qed
qed

lemma indexOf_distinct:
  "distinct xs \<Longrightarrow> i < length xs \<Longrightarrow> indexOf xs (xs ! i) = Some i"
  by (auto simp: indexOf_Some_iff nth_eq_iff_index_eq)

lemma sorted_distinct_index_card:
  fixes xs :: "'a::linorder list"
  assumes "sorted xs" "distinct xs" "i < length xs"
  shows "card {y \<in> set xs. y < xs ! i} = i"
proof -
  have "{y \<in> set xs. y < xs ! i} = (\<lambda>j. xs ! j) ` {j. j < i}"
  proof (intro set_eqI iffI)
    fix y assume "y \<in> {y \<in> set xs. y < xs ! i}"
    then obtain j where j: "j < length xs" "xs ! j = y" "y < xs ! i"
      by (auto simp: in_set_conv_nth)
    have "j < i"
    proof (rule ccontr)
      assume "\<not> j < i"
      then have "i \<le> j" by simp
      then have "xs ! i \<le> xs ! j" using assms(1) j(1) by (simp add: sorted_nth_mono)
      with j show False by simp
    qed
    with j show "y \<in> (\<lambda>j. xs ! j) ` {j. j < i}" by auto
  next
    fix y assume "y \<in> (\<lambda>j. xs ! j) ` {j. j < i}"
    then obtain j where j: "j < i" "y = xs ! j" by auto
    then have "xs ! j \<le> xs ! i" using assms by (simp add: sorted_nth_mono)
    moreover have "xs ! j \<noteq> xs ! i" using j assms by (simp add: nth_eq_iff_index_eq)
    ultimately show "y \<in> {y \<in> set xs. y < xs ! i}" using j assms by auto
  qed
  moreover have "inj_on (\<lambda>j. xs ! j) {j. j < i}"
    using assms by (auto simp: inj_on_def nth_eq_iff_index_eq)
  ultimately show ?thesis by (simp add: card_image)
qed

lemma map_result_Inr_iff:
  "map_result f xs = Inr ys \<longleftrightarrow> map f xs = map Inr ys"
proof (induction xs arbitrary: ys)
  case Nil
  then show ?case by auto
next
  case (Cons x xs)
  show ?case
  proof (cases "f x")
    case (Inl e)
    then show ?thesis by (auto simp: Cons_eq_map_conv)
  next
    case (Inr y)
    show ?thesis
    proof (cases "map_result f xs")
      case (Inl e)
      have "\<And>zs. map f xs \<noteq> map Inr zs"
        using Cons.IH Inl by (metis Inl_Inr_False)
      then show ?thesis using Inl Inr by (auto simp: Cons_eq_map_conv)
    next
      case r: (Inr zs)
      then have "map f xs = map Inr zs" using Cons.IH by simp
      moreover have "(map (Inr :: _ \<Rightarrow> 'b + _) (y # zs) = map Inr ys) = (y # zs = ys)"
        by (rule inj_map_eq_map) simp
      ultimately show ?thesis using r Inr by auto
    qed
  qed
qed

lemma map_result_Inl_iff:
  "(\<exists>e. map_result f xs = Inl e) \<longleftrightarrow> (\<exists>x\<in>set xs. \<exists>e. f x = Inl e)"
  by (induction xs) (auto split: sum.splits)

lemma obj_set_present: "k \<in> fst ` set ps \<Longrightarrow> map fst (obj_set k v ps) = map fst ps"
  by (induction ps) force+

lemma obj_set_absent: "k \<notin> fst ` set ps \<Longrightarrow> obj_set k v ps = ps @ [(k, v)]"
  by (induction ps) auto

lemma obj_set_keys:
  "map fst (obj_set k v ps) = (if k \<in> fst ` set ps then map fst ps else map fst ps @ [k])"
  by (simp add: obj_set_present obj_set_absent)

lemma distinct_obj_set: "distinct (map fst ps) \<Longrightarrow> distinct (map fst (obj_set k v ps))"
  by (simp add: obj_set_keys)

lemma step_distinct: "distinct (map fst out) \<Longrightarrow> distinct (map fst (step ps prev out))"
proof (induction ps prev out rule: step.induct)
  case (1 prev out)
  then show ?case by simp
next
  case (2 key v rest prev out)
  show ?case
  proof (cases v)
    case (JObj cps)
    with 2 show ?thesis by (cases "cps = []") (simp_all add: distinct_obj_set Let_def)
  next
    case (JArr cps)
    with 2 show ?thesis by (cases "cps = []") (simp_all add: distinct_obj_set Let_def)
  qed (use 2 in \<open>simp_all add: distinct_obj_set Let_def\<close>)
qed

lemma flatten_distinct: "distinct (Object_keys (flatten t))"
  by (simp add: flatten_def Object_keys_def step_distinct)

lemma sorted_names_props:
  "sorted (sort (Object_keys (flatten t)))" "distinct (sort (Object_keys (flatten t)))"
  "set (sort (Object_keys (flatten t))) = set (Object_keys (flatten t))"
  by (simp_all add: flatten_distinct)

lemma filter_less_card:
  fixes xs :: "'a::linorder list"
  assumes "distinct xs"
  shows "length (filter (\<lambda>p. p < x) xs) = card {p \<in> set xs. p < x}"
proof -
  have "length (filter (\<lambda>p. p < x) xs) = card (set (filter (\<lambda>p. p < x) xs))"
    using assms by (metis distinct_card distinct_filter)
  then show ?thesis by simp
qed

lemma indexOf_sort_canonical:
  fixes xs :: "'a::linorder list"
  assumes "distinct xs" "x \<in> set xs"
  shows "indexOf (sort xs) x = Some (length (filter (\<lambda>p. p < x) xs))"
proof -
  let ?s = "sort xs"
  have d: "distinct ?s" and so: "sorted ?s" and se: "set ?s = set xs" using assms by simp_all
  from assms(2) se obtain i where i: "i < length ?s" "?s ! i = x"
    by (metis in_set_conv_nth)
  have "indexOf ?s (?s ! i) = Some i" using indexOf_distinct[OF d i(1)] .
  moreover have "card {y \<in> set ?s. y < ?s ! i} = i"
    using sorted_distinct_index_card[OF so d i(1)] .
  ultimately show ?thesis using i se filter_less_card[OF assms(1), of x] by simp
qed

lemma indexOf_CanonicalIndex:
  "indexOf (sort (Object_keys (flattenMessageStructure struct))) n = CanonicalIndex struct n"
proof (cases "n \<in> set (Object_keys (flattenMessageStructure struct))")
  case True
  then show ?thesis
    using indexOf_sort_canonical[of "Object_keys (flattenMessageStructure struct)" n]
    by (simp add: CanonicalIndex_def flattenMessageStructure_def flatten_distinct)
next
  case False
  then show ?thesis by (simp add: CanonicalIndex_def indexOf_None_iff)
qed

lemma getIndices_Inr_iff:
  "getIndicesForMsgNames names struct = Inr is \<longleftrightarrow>
     map (CanonicalIndex struct) names = map Some is"
proof -
  let ?f = "\<lambda>n. case CanonicalIndex struct n of None \<Rightarrow> Inl (MessageNameNotFound n) | Some i \<Rightarrow> Inr i"
  have "getIndicesForMsgNames names struct = map_result ?f names"
    by (simp add: getIndicesForMsgNames_def indexOf_CanonicalIndex)
  moreover have "(map ?f names = map Inr is) = (map (CanonicalIndex struct) names = map Some is)"
    by (induction names arbitrary: "is") (auto simp: Cons_eq_map_conv split: option.splits)
  ultimately show ?thesis by (simp add: map_result_Inr_iff)
qed

lemma getIndices_Inl_iff:
  "(\<exists>e. getIndicesForMsgNames names struct = Inl e) \<longleftrightarrow>
     (\<exists>n\<in>set names. n \<notin> set (Object_keys (flattenMessageStructure struct)))"
  by (auto simp: getIndicesForMsgNames_def map_result_Inl_iff indexOf_None_iff split: option.splits)

lemma fold_addWitnessRef:
  "fold (\<lambda>i m. addWitnessRef s i m) is ms = ms \<union> {s} \<times> set is"
  by (induction "is" arbitrary: ms) (auto simp: addWitnessRef_def)

lemma loop_Inr_iff:
  "createWitnessEquality_loop E ms = Inr ms' \<longleftrightarrow>
     (\<forall>(s, names, struct)\<in>set E. \<forall>n\<in>set names. CanonicalIndex struct n \<noteq> None) \<and>
     ms' = ms \<union> {(s, i). \<exists>names struct n. (s, names, struct) \<in> set E \<and> n \<in> set names
                       \<and> CanonicalIndex struct n = Some i}"
proof (induction E arbitrary: ms)
  case Nil
  then show ?case by auto
next
  case (Cons a E)
  obtain s names struct where a: "a = (s, names, struct)" by (cases a)
  show ?case
  proof (cases "getIndicesForMsgNames names struct")
    case (Inl e)
    then have "\<exists>n\<in>set names. n \<notin> set (Object_keys (flattenMessageStructure struct))"
      using getIndices_Inl_iff by blast
    then have "\<exists>n\<in>set names. CanonicalIndex struct n = None"
      by (auto simp: CanonicalIndex_def Let_def)
    then show ?thesis using Inl a by auto
  next
    case (Inr "is")
    then have m: "map (CanonicalIndex struct) names = map Some is"
      by (simp add: getIndices_Inr_iff)
    have all: "\<forall>n\<in>set names. CanonicalIndex struct n \<noteq> None"
    proof
      fix n assume "n \<in> set names"
      then have "CanonicalIndex struct n \<in> set (map Some is)" using m by (metis image_eqI list.set_map)
      then show "CanonicalIndex struct n \<noteq> None" by auto
    qed
    have st: "{s} \<times> set is = {(s', i). s' = s \<and> (\<exists>n\<in>set names. CanonicalIndex struct n = Some i)}"
    proof -
      have "Some ` set is = CanonicalIndex struct ` set names"
        using m by (metis list.set_map)
      then have "\<And>i. i \<in> set is \<longleftrightarrow> (\<exists>n\<in>set names. CanonicalIndex struct n = Some i)"
        by (metis (no_types, lifting) image_iff inj_Some inj_image_mem_iff)
      then show ?thesis by auto
    qed
    let ?Y = "\<lambda>E. {(s, i). \<exists>names struct n. (s, names, struct) \<in> set E \<and> n \<in> set names
                       \<and> CanonicalIndex struct n = Some i}"
    have sets: "ms \<union> ?Y (a # E) = (ms \<union> {s} \<times> set is) \<union> ?Y E"
      unfolding st a by auto
    have alls: "(\<forall>(s, names, struct)\<in>set (a # E). \<forall>n\<in>set names. CanonicalIndex struct n \<noteq> None)
        = (\<forall>(s, names, struct)\<in>set E. \<forall>n\<in>set names. CanonicalIndex struct n \<noteq> None)"
      using all a by simp
    have "createWitnessEquality_loop (a # E) ms
        = createWitnessEquality_loop E (ms \<union> {s} \<times> set is)"
      using Inr a by (simp add: fold_addWitnessRef)
    then show ?thesis
      unfolding alls sets using Cons.IH[of "ms \<union> {s} \<times> set is"] by simp
  qed
qed

lemma filter_same_key:
  "distinct (map f zs) \<Longrightarrow> k \<in> set zs \<Longrightarrow> filter (\<lambda>x. f k = f x) zs = [k]"
proof (induction zs)
  case Nil
  then show ?case by simp
next
  case (Cons z zs)
  show ?case
  proof (cases "k = z")
    case True
    have "filter (\<lambda>x. f z = f x) zs = []"
      using Cons.prems(1) by (auto simp: filter_empty_conv)
    with True show ?thesis by simp
  next
    case False
    then have "k \<in> set zs" using Cons.prems by simp
    moreover have "f z \<notin> f ` set zs" using Cons.prems(1) by simp
    then have "f k \<noteq> f z" using \<open>k \<in> set zs\<close> by (metis imageI)
    ultimately show ?thesis using Cons by simp
  qed
qed

lemma sort_key_insertion_order:
  assumes "distinct (map f xs)" "mset ys = mset xs"
  shows "sort_key f ys = sort_key f xs"
proof (rule properties_for_sort_key)
  show "mset (sort_key f xs) = mset ys" using assms by simp
  show "sorted (map f (sort_key f xs))" by simp
  have dy: "distinct (map f ys)"
    using assms by (metis distinct_map distinct_count_atmost_1 mset_eq_setD mset_map set_mset_mset mset_eq_imp_distinct_iff)
  have ds: "distinct (map f (sort_key f xs))"
    using assms(1) by (metis distinct_map distinct_sort set_sort mset_sort mset_eq_imp_distinct_iff mset_map)
  fix k assume "k \<in> set (sort_key f xs)"
  then have kx: "k \<in> set xs" by simp
  then have ky: "k \<in> set ys" using assms(2) by (metis mset_eq_setD)
  show "filter (\<lambda>x. f k = f x) (sort_key f xs) = filter (\<lambda>x. f k = f x) ys"
    using filter_same_key[OF ds] filter_same_key[OF dy ky] kx by simp
qed

lemma reveal_fold:
  "fold (reveal_step names vals R) [0..<n] ([], [], 0) =
     (map (\<lambda>i. (i, vals ! i)) (filter (\<lambda>i. names ! i \<in> set R) [0..<n]),
      map (\<lambda>i. (i, vals ! i)) (filter (\<lambda>i. names ! i \<notin> set R) [0..<n]),
      length (filter (\<lambda>i. names ! i \<in> set R) [0..<n]))"
proof (induction n)
  case 0
  then show ?case by simp
next
  case (Suc n)
  have a: "\<And>P. n \<notin> fst ` set (map (\<lambda>i. (i, vals ! i)) (filter P [0..<n]))"
    by auto
  let ?F = "reveal_step names vals R"
  have "fold ?F [0..<Suc n] ([], [], 0) = ?F n (fold ?F [0..<n] ([], [], 0))"
    by simp
  also have "\<dots> = ?F n (map (\<lambda>i. (i, vals ! i)) (filter (\<lambda>i. names ! i \<in> set R) [0..<n]),
      map (\<lambda>i. (i, vals ! i)) (filter (\<lambda>i. names ! i \<notin> set R) [0..<n]),
      length (filter (\<lambda>i. names ! i \<in> set R) [0..<n]))"
    by (simp only: Suc)
  also have "\<dots> = (map (\<lambda>i. (i, vals ! i)) (filter (\<lambda>i. names ! i \<in> set R) [0..<Suc n]),
      map (\<lambda>i. (i, vals ! i)) (filter (\<lambda>i. names ! i \<notin> set R) [0..<Suc n]),
      length (filter (\<lambda>i. names ! i \<in> set R) [0..<Suc n]))"
    by (simp add: reveal_step_def obj_set_absent[OF a])
  finally show ?case .
qed

lemma length_filter_upt_nth:
  "length (filter (\<lambda>i. P (xs ! i)) [0..<length xs]) = length (filter P xs)"
proof -
  have "filter P xs = map ((!) xs) (filter (\<lambda>i. P (xs ! i)) [0..<length xs])"
    by (metis (mono_tags, lifting) filter_map map_nth comp_def filter_cong)
  then show ?thesis by (metis length_map)
qed

lemma found_count:
  assumes "distinct names" "distinct R"
  shows "int (length R) - int (length (filter (\<lambda>i. names ! i \<in> set R) [0..<length names]))
           = int (card (set R - set names))"
proof -
  have "length (filter (\<lambda>i. names ! i \<in> set R) [0..<length names])
          = length (filter (\<lambda>n. n \<in> set R) names)"
    by (rule length_filter_upt_nth)
  also have "\<dots> = card (set (filter (\<lambda>n. n \<in> set R) names))"
    using assms(1) by (metis distinct_card distinct_filter)
  also have "set (filter (\<lambda>n. n \<in> set R) names) = set R \<inter> set names" by auto
  finally have f: "length (filter (\<lambda>i. names ! i \<in> set R) [0..<length names]) = card (set R \<inter> set names)" .
  have "card (set R) = card (set R - set names) + card (set R \<inter> set names)"
    by (metis List.finite_set card_Diff_subset_Int add.commute finite_Int le_add_diff_inverse2 card_mono inf_le1 diff_add_inverse2 add_diff_cancel_right')
  then show ?thesis using f assms(2) by (simp add: distinct_card)
qed

lemma encodeMessageObject_Inr:
  assumes "encodeMessageObject enc messages = Inr (names, vals)"
  shows "names = sort (Object_keys (flatten messages))"
    and "length vals = length names"
    and "distinct names"
    and "\<And>i. i < length names \<Longrightarrow> enc (names ! i) (obj_get (flatten messages) (names ! i)) = Inr (vals ! i)"
proof -
  let ?f = "\<lambda>n. enc n (obj_get (flatten messages) n)"
  from assms have n: "names = sort (Object_keys (flatten messages))"
    and m: "map_result ?f names = Inr vals"
    by (auto simp: encodeMessageObject_def Let_def split: sum.splits)
  from m have mm: "map ?f names = map Inr vals" by (simp add: map_result_Inr_iff)
  show "names = sort (Object_keys (flatten messages))" by (rule n)
  show l: "length vals = length names" using mm by (metis length_map)
  show "distinct names" using n by (simp add: flatten_distinct)
  fix i assume i: "i < length names"
  have "map ?f names ! i = map Inr vals ! i" using mm by simp
  then show "?f (names ! i) = Inr (vals ! i)"
    using i l by simp
qed

lemma found_eq_iff:
  assumes "distinct names" "distinct R"
  shows "length R = length (filter (\<lambda>i. names ! i \<in> set R) [0..<length names]) \<longleftrightarrow> set R \<subseteq> set names"
proof -
  have "int (length R) - int (length (filter (\<lambda>i. names ! i \<in> set R) [0..<length names])) = 0
        \<longleftrightarrow> card (set R - set names) = 0"
    using found_count[OF assms] by simp
  also have "\<dots> \<longleftrightarrow> set R \<subseteq> set names" by auto
  finally show ?thesis by linarith
qed

lemma getRevealedAndUnrevealed_result:
  assumes enc: "encodeMessageObject enc messages = Inr (names, encodedValues)"
    and R: "distinct revealedMsgNames"
  shows "getRevealedAndUnrevealed js messages revealedMsgNames enc =
     (if set revealedMsgNames \<subseteq> set names
      then Inr (map (\<lambda>i. (i, encodedValues ! i))
                  (filter (\<lambda>i. names ! i \<in> set revealedMsgNames) [0..<length names]),
                map (\<lambda>i. (i, encodedValues ! i))
                  (filter (\<lambda>i. names ! i \<notin> set revealedMsgNames) [0..<length names]),
                unflatten js (JObj (fold (\<lambda>n raw. obj_set n (obj_get (flatten messages) n) raw)
                                       revealedMsgNames [])))
      else Inl (RevealedNamesNotFound (int (card (set revealedMsgNames - set names)))))"
proof -
  have d: "distinct names" using encodeMessageObject_Inr(3)[OF enc] .
  show ?thesis
  proof (cases "set revealedMsgNames \<subseteq> set names")
    case True
    then have "length revealedMsgNames
        = length (filter (\<lambda>i. names ! i \<in> set revealedMsgNames) [0..<length names])"
      using found_eq_iff[OF d R] by simp
    then show ?thesis using True
      by (simp add: getRevealedAndUnrevealed_def enc reveal_fold Let_def)
  next
    case False
    then have "length revealedMsgNames
        \<noteq> length (filter (\<lambda>i. names ! i \<in> set revealedMsgNames) [0..<length names])"
      using found_eq_iff[OF d R] by simp
    then show ?thesis using False found_count[OF d R]
      by (simp add: getRevealedAndUnrevealed_def enc reveal_fold Let_def)
  qed
qed



lemmas cred_eval_defs = example_consts_def example_schema_def example_builder_def
  CredentialBuilder_serializeForSigning_def hasAllFieldsFromSchema_def areArraysEqual_def
  example_signer_def js_define_def js_assign_def is_array_index_def








lemma obj_get_append_present: "k \<in> fst ` set xs \<Longrightarrow> obj_get (xs @ ys) k = obj_get xs k"
proof -
  assume "k \<in> fst ` set xs"
  then obtain v where "map_of xs k = Some v"
    by (metis map_of_eq_None_iff not_Some_eq)
  then show ?thesis by (simp add: obj_get_def map_add_def)
qed

lemma fold_obj_set_append:
  "distinct (map fst flds) \<Longrightarrow> fst ` set flds \<inter> fst ` set s0 = {} \<Longrightarrow>
     fold (\<lambda>(k, v) s. obj_set k v s) flds s0 = s0 @ flds"
proof (induction flds arbitrary: s0)
  case Nil
  then show ?case by simp
next
  case (Cons p flds)
  obtain k v where p: "p = (k, v)" by (cases p)
  have a: "obj_set k v s0 = s0 @ [(k, v)]"
    using Cons.prems(2) p by (intro obj_set_absent) auto
  have "fst ` set flds \<inter> fst ` set (s0 @ [(k, v)]) = {}"
    using Cons.prems p by auto
  then have "fold (\<lambda>(k, v) s. obj_set k v s) flds (s0 @ [(k, v)]) = (s0 @ [(k, v)]) @ flds"
    using Cons.IH Cons.prems(1) by simp
  then show ?case using a p by simp
qed













lemma join_split: "join_dot (split_on CHR ''.'' n) = n"
proof (induction n)
  case Nil
  then show ?case by simp
next
  case (Cons c cs)
  obtain s ss where sp: "split_on CHR ''.'' cs = s # ss"
    by (cases "split_on CHR ''.'' cs") (cases cs; auto split: if_splits list.splits)+
  show ?case
  proof (cases "c = CHR ''.''")
    case True
    then show ?thesis using Cons sp by simp
  next
    case False
    then show ?thesis using Cons sp by (cases ss) auto
  qed
qed

lemma split_on_nonempty: "split_on d n \<noteq> []"
  by (induction n) (auto split: list.splits)

lemma path_name_join:
  "p \<noteq> [] \<Longrightarrow> \<forall>s\<in>set p. s \<noteq> [] \<Longrightarrow>
     path_name prev p = (if prev = [] then join_dot p else prev @ ''.'' @ join_dot p)"
proof (induction p arbitrary: prev)
  case Nil
  then show ?case by simp
next
  case (Cons s p)
  show ?case
  proof (cases p)
    case Nil
    then show ?thesis by (simp add: path_name_def)
  next
    case (Cons t r)
    have "path_name prev (s # p) = path_name (if prev = [] then s else prev @ ''.'' @ s) p"
      by (simp add: path_name_def)
    also have "\<dots> = (if prev = [] then s else prev @ ''.'' @ s) @ ''.'' @ join_dot p"
      using Cons.IH[of "if prev = [] then s else prev @ ''.'' @ s"] Cons.prems Cons by auto
    finally show ?thesis using Cons by simp
  qed
qed

lemma step_leaves:
  "step ps prev out = fold (\<lambda>(p, x) out. obj_set (path_name prev p) x out) (leaves ps) out"
proof (induction ps prev out rule: step.induct)
  case (1 prev out)
  then show ?case by simp
next
  case (2 key v rest prev out)
  let ?nk = "if prev = [] then key else prev @ ''.'' @ key"
  have pn: "\<And>p. path_name prev (key # p) = path_name ?nk p"
    by (simp add: path_name_def)
  have sub: "\<And>ps out. fold (\<lambda>(p, x) out. obj_set (path_name prev p) x out)
                 (map (\<lambda>(p, x). (key # p, x)) (leaves ps)) out
            = fold (\<lambda>(p, x) out. obj_set (path_name ?nk p) x out) (leaves ps) out"
    by (simp add: fold_map comp_def case_prod_unfold pn)
  have one: "\<And>out. fold (\<lambda>(p, x) out. obj_set (path_name prev p) x out) [([key], v)] out
      = obj_set ?nk v out"
    by (simp add: path_name_def)
  show ?case
  proof (cases v)
    case (JObj cps)
    show ?thesis
    proof (cases "cps = []")
      case True
      with JObj 2 show ?thesis by (simp add: Let_def path_name_def)
    next
      case False
      with JObj 2 show ?thesis by (simp add: Let_def sub)
    qed
  next
    case (JArr cps)
    show ?thesis
    proof (cases "cps = []")
      case True
      with JArr 2 show ?thesis by (simp add: Let_def path_name_def)
    next
      case False
      with JArr 2 show ?thesis by (simp add: Let_def sub)
    qed
  qed (use 2 in \<open>simp_all add: Let_def path_name_def\<close>)
qed


lemma leaves_append: "leaves (xs @ ys) = leaves xs @ leaves ys"
  by (induction xs) auto

lemma leaves_nonempty: "ps \<noteq> [] \<Longrightarrow> leaves ps \<noteq> []"
proof (induction ps rule: leaves.induct)
  case 1
  then show ?case by simp
next
  case (2 key v rest)
  show ?case
  proof (cases v)
    case (JObj cps)
    with 2 show ?thesis by (cases "cps = []") auto
  next
    case (JArr cps)
    with 2 show ?thesis by (cases "cps = []") auto
  qed auto
qed

lemma leaves_single_hd:
  "(q, x) \<in> set (leaves [(k, v)]) \<Longrightarrow> \<exists>q'. q = k # q'"
  by (cases v) (auto split: if_splits)

lemma leaves_hd: "(q, x) \<in> set (leaves T) \<Longrightarrow> \<exists>k q'. q = k # q' \<and> k \<in> fst ` set T"
proof (induction T)
  case Nil
  then show ?case by simp
next
  case (Cons e T)
  obtain k v where e: "e = (k, v)" by (cases e)
  have "leaves (e # T) = leaves [(k, v)] @ leaves T"
    using leaves_append[of "[(k, v)]" T] e by simp
  then consider "(q, x) \<in> set (leaves [(k, v)])" | "(q, x) \<in> set (leaves T)"
    using Cons.prems by auto
  then show ?case
  proof cases
    case 1
    then show ?thesis using leaves_single_hd e by fastforce
  next
    case 2
    then show ?thesis using Cons.IH by auto
  qed
qed

lemma wf_append:
  "wf_props (xs @ ys) = (wf_props xs \<and> wf_props ys \<and> fst ` set xs \<inter> fst ` set ys = {})"
proof (induction xs)
  case Nil
  then show ?case by simp
next
  case (Cons e xs)
  obtain k v where e: "e = (k, v)" by (cases e)
  have "(k \<notin> fst ` set (xs @ ys)) = (k \<notin> fst ` set xs \<and> k \<notin> fst ` set ys)"
    by (simp add: image_Un)
  moreover have "(fst ` set (e # xs) \<inter> fst ` set ys = {})
      = (k \<notin> fst ` set ys \<and> fst ` set xs \<inter> fst ` set ys = {})"
    using e by auto
  ultimately show ?case using Cons e by auto
qed

lemma split_entry:
  "map_of T k = Some v \<Longrightarrow> \<exists>xs ys. T = xs @ (k, v) # ys \<and> k \<notin> fst ` set xs"
proof (induction T)
  case Nil
  then show ?case by simp
next
  case (Cons e T)
  obtain k' v' where e: "e = (k', v')" by (cases e)
  show ?case
  proof (cases "k' = k")
    case True
    then have "e # T = [] @ (k, v) # T" using Cons.prems e by simp
    then show ?thesis by (metis empty_iff image_empty list.set(1))
  next
    case False
    then obtain xs ys where "T = xs @ (k, v) # ys" "k \<notin> fst ` set xs"
      using Cons e by auto
    then have "e # T = (e # xs) @ (k, v) # ys \<and> k \<notin> fst ` set (e # xs)"
      using False e by auto
    then show ?thesis by blast
  qed
qed

lemma obj_set_split:
  "k \<notin> fst ` set xs \<Longrightarrow> obj_set k v' (xs @ (k, v) # ys) = xs @ (k, v') # ys"
  by (induction xs) auto

lemma leaves_container:
  "cps \<noteq> [] \<Longrightarrow> leaves [(k, JObj cps)] = map (\<lambda>(p, x). (k # p, x)) (leaves cps)"
  "cps \<noteq> [] \<Longrightarrow> leaves [(k, JArr cps)] = map (\<lambda>(p, x). (k # p, x)) (leaves cps)"
  by simp_all

lemma leaves_leaf: "is_leaf v \<Longrightarrow> leaves [(k, v)] = [([k], v)]"
  by (cases v) (auto simp: is_leaf_def)

lemma set_path_insert:
  assumes "wf_props T" "p \<noteq> []" "\<forall>s\<in>set p. plain_seg js s" "is_leaf v"
    and "\<forall>(q, x)\<in>set (leaves T). \<not> prefix q p \<and> \<not> prefix p q"
  shows "set (leaves (set_path js arr p v T)) = set (leaves T) \<union> {(p, v)} \<and>
         wf_props (set_path js arr p v T) \<and> set_path js arr p v T \<noteq> []"
  using assms
proof (induction p arbitrary: T arr)
  case Nil
  then show ?case by simp
next
  case (Cons s1 p')
  have k1: "key_name js s1 = s1" and np: "s1 \<noteq> ''__proto__''"
    and ni: "\<not> inherited js arr s1"
    using Cons.prems(3) by (cases arr; auto simp: plain_seg_def)+
  have compat: "\<And>q x. (q, x) \<in> set (leaves T) \<Longrightarrow> \<not> prefix q (s1 # p') \<and> \<not> prefix (s1 # p') q"
    using Cons.prems(5) by auto
  show ?case
  proof (cases p')
    case Nil
    have "s1 \<notin> fst ` set T"
    proof
      assume "s1 \<in> fst ` set T"
      then obtain w where "map_of T s1 = Some w"
        by (metis map_of_eq_None_iff not_Some_eq)
      then obtain xs ys where T: "T = xs @ (s1, w) # ys" using split_entry by metis
      have "leaves [(s1, w)] \<noteq> []" by (rule leaves_nonempty) simp
      then obtain q x where qx: "(q, x) \<in> set (leaves [(s1, w)])"
        by (metis last_in_set surj_pair)
      then obtain q' where "q = s1 # q'" using leaves_single_hd by blast
      moreover have "(q, x) \<in> set (leaves T)"
        using qx unfolding T leaves_append
        using leaves_append[of "[(s1, w)]" ys] by auto
      ultimately show False using compat[of q x] Nil by simp
    qed
    then have "set_path js arr (s1 # p') v T = T @ [(s1, v)]"
      using Nil k1 by (simp add: obj_set_absent)
    moreover have "leaves (T @ [(s1, v)]) = leaves T @ [([s1], v)]"
      unfolding leaves_append using leaves_leaf[OF Cons.prems(4)] by simp
    moreover have "wf_props (T @ [(s1, v)])"
      using Cons.prems(1,4) \<open>s1 \<notin> fst ` set T\<close>
      by (cases v) (auto simp: wf_append is_leaf_def)
    ultimately show ?thesis using Nil by simp
  next
    case (Cons s2 rest)
    have pl: "\<forall>s\<in>set p'. plain_seg js s" using Cons.prems(3) by simp
    have p'ne: "p' \<noteq> []" using Cons by simp
    show ?thesis
    proof (cases "s1 \<in> fst ` set T")
      case False
      then have g: "obj_get T s1 = JUndefined"
        by (simp add: obj_get_def map_of_eq_None_iff[THEN iffD2])
      define inner where "inner = set_path js (number_key js s2 \<noteq> None) p' v []"
      have ih: "set (leaves inner) = {(p', v)} \<and> wf_props inner \<and> inner \<noteq> []"
        using Cons.IH[of "[]" "number_key js s2 \<noteq> None"] p'ne pl Cons.prems(4)
        unfolding inner_def by simp
      define C where "C = (if number_key js s2 \<noteq> None then JArr else JObj)"
      have sp: "set_path js arr (s1 # p') v T = T @ [(s1, C inner)]"
        using Cons k1 np ni g False unfolding inner_def C_def
        by (auto simp: obj_set_absent Let_def)
      have lv: "leaves [(s1, C inner)] = map (\<lambda>(p, x). (s1 # p, x)) (leaves inner)"
        using ih unfolding C_def by simp
      have wfC: "wf_props [(s1, C inner)]" using ih unfolding C_def by simp
      have "set (leaves (T @ [(s1, C inner)])) = set (leaves T) \<union> {(s1 # p', v)}"
        unfolding leaves_append lv using ih by auto
      moreover have "wf_props (T @ [(s1, C inner)])"
        unfolding wf_append using Cons.prems(1) wfC False by simp
      ultimately show ?thesis unfolding sp by simp
    next
      case True
      then obtain cur where cur: "map_of T s1 = Some cur"
        by (metis map_of_eq_None_iff not_Some_eq)
      then obtain xs ys where T: "T = xs @ (s1, cur) # ys" and nx: "s1 \<notin> fst ` set xs"
        using split_entry by metis
      have g: "obj_get T s1 = cur" using cur by (simp add: obj_get_def)
      have lT: "leaves T = leaves xs @ leaves [(s1, cur)] @ leaves ys"
        unfolding T leaves_append using leaves_append[of "[(s1, cur)]" ys] by simp
      have wfT: "wf_props xs" "wf_props [(s1, cur)]" "wf_props ys"
        "fst ` set xs \<inter> fst ` set ((s1, cur) # ys) = {}" "s1 \<notin> fst ` set ys"
        using Cons.prems(1) unfolding T wf_append by auto
      have notleaf: "\<not> is_leaf cur"
      proof
        assume "is_leaf cur"
        then have "([s1], cur) \<in> set (leaves T)"
          unfolding lT using leaves_leaf by simp
        then show False using compat[of "[s1]" cur] by simp
      qed
      then obtain cps where cps: "cur = JObj cps \<or> cur = JArr cps" "cps \<noteq> []"
        by (cases cur) (auto simp: is_leaf_def)
      define D where "D = (if cur = JObj cps then JObj else JArr)"
      have curD: "cur = D cps" using cps unfolding D_def by auto
      have lcur: "leaves [(s1, cur)] = map (\<lambda>(p, x). (s1 # p, x)) (leaves cps)"
        using cps by auto
      define inner where "inner = set_path js (cur \<noteq> JObj cps) p' v cps"
      have wfc: "wf_props cps" using wfT(2) cps by auto
      have cc: "\<forall>(q, x)\<in>set (leaves cps). \<not> prefix q p' \<and> \<not> prefix p' q"
      proof (clarify)
        fix q x assume "(q, x) \<in> set (leaves cps)"
        then have "(s1 # q, x) \<in> set (leaves T)"
          unfolding lT lcur by force
        then show "\<not> prefix q p' \<and> \<not> prefix p' q"
          using compat[of "s1 # q" x] by simp
      qed
      have ih: "set (leaves inner) = set (leaves cps) \<union> {(p', v)} \<and> wf_props inner \<and> inner \<noteq> []"
        using Cons.IH[OF wfc p'ne pl Cons.prems(4) cc] unfolding inner_def .
      have sp: "set_path js arr (s1 # p') v T = xs @ (s1, D inner) # ys"
        using Cons k1 np g cur cps nx unfolding inner_def D_def T
        by (auto simp: obj_set_split Let_def)
      have lD: "leaves [(s1, D inner)] = map (\<lambda>(p, x). (s1 # p, x)) (leaves inner)"
        using ih unfolding D_def by simp
      have l2: "leaves (xs @ (s1, D inner) # ys) = leaves xs @ leaves [(s1, D inner)] @ leaves ys"
        unfolding leaves_append using leaves_append[of "[(s1, D inner)]" ys] by simp
      have "set (leaves (xs @ (s1, D inner) # ys)) = set (leaves T) \<union> {(s1 # p', v)}"
        unfolding l2 lD lT lcur using ih by auto
      moreover have "wf_props (xs @ (s1, D inner) # ys)"
        unfolding wf_append using wfT ih unfolding D_def by auto
      ultimately show ?thesis unfolding sp by simp
    qed
  qed
qed

lemma leaves_values_leaf: "(p, x) \<in> set (leaves ps) \<Longrightarrow> is_leaf x"
proof (induction ps arbitrary: p rule: leaves.induct)
  case 1
  then show ?case by simp
next
  case (2 key v rest)
  show ?case
  proof (cases v)
    case (JObj cps)
    with 2 show ?thesis by (cases "cps = []") (auto simp: is_leaf_def)
  next
    case (JArr cps)
    with 2 show ?thesis by (cases "cps = []") (auto simp: is_leaf_def)
  qed (use 2 in \<open>auto simp: is_leaf_def\<close>)
qed

lemma set_obj_set_subset: "set (obj_set k v ps) \<subseteq> insert (k, v) (set ps)"
  by (induction ps) (auto split: if_splits)

lemma fold_obj_set_values:
  "\<forall>e\<in>set out. P (snd e) \<Longrightarrow> \<forall>e\<in>set xs. P (snd e) \<Longrightarrow>
     \<forall>e\<in>set (fold (\<lambda>(p, x) out. obj_set (f p) x out) xs out). P (snd e)"
proof (induction xs arbitrary: out)
  case Nil
  then show ?case by simp
next
  case (Cons a xs)
  obtain p x where a: "a = (p, x)" by (cases a)
  have "\<forall>e\<in>set (obj_set (f p) x out). P (snd e)"
    using set_obj_set_subset[of "f p" x out] Cons.prems a by auto
  then show ?case using Cons a by simp
qed

lemma flatten_values_leaf: "(n, v) \<in> set (flatten t) \<Longrightarrow> is_leaf v"
proof -
  assume a: "(n, v) \<in> set (flatten t)"
  have "\<forall>e\<in>set (leaves (own_props t)). is_leaf (snd e)"
    using leaves_values_leaf by auto
  then have "\<forall>e\<in>set (flatten t). is_leaf (snd e)"
    unfolding flatten_def step_leaves by (intro fold_obj_set_values) auto
  then show ?thesis using a by auto
qed

lemma wf_leaves_distinct: "wf_props T \<Longrightarrow> distinct (map fst (leaves T))"
proof (induction T rule: leaves.induct)
  case 1
  then show ?case by simp
next
  case (2 key v rest)
  have wr: "wf_props rest" and kn: "key \<notin> fst ` set rest" using "2.prems" by auto
  have dr: "distinct (map fst (leaves rest))" using "2.IH" wr by simp
  have disj: "\<And>e. distinct (map fst e) \<Longrightarrow> (\<forall>q\<in>set (map fst e). \<exists>q'. q = key # q')
      \<Longrightarrow> distinct (map fst (e @ leaves rest))"
  proof -
    fix e :: "(string list \<times> jsval) list"
    assume d: "distinct (map fst e)" and h: "\<forall>q\<in>set (map fst e). \<exists>q'. q = key # q'"
    have "set (map fst e) \<inter> set (map fst (leaves rest)) = {}"
    proof (rule ccontr)
      assume "set (map fst e) \<inter> set (map fst (leaves rest)) \<noteq> {}"
      then obtain q where q: "q \<in> set (map fst e)" "q \<in> set (map fst (leaves rest))" by auto
      then obtain q' where "q = key # q'" using h by auto
      moreover obtain x where "(q, x) \<in> set (leaves rest)" using q(2) by auto
      ultimately show False using leaves_hd[of q x rest] kn by auto
    qed
    then show "distinct (map fst (e @ leaves rest))" using d dr by simp
  qed
  have inj: "\<And>cps. distinct (map fst (leaves cps)) \<Longrightarrow>
      distinct (map fst (map (\<lambda>(p, x). (key # p, x)) (leaves cps)))"
    by (simp add: comp_def case_prod_unfold distinct_map inj_on_def)
  have hd: "\<And>cps. \<forall>q\<in>set (map fst (map (\<lambda>(p, x). (key # p, x)) (leaves cps))). \<exists>q'. q = key # q'"
    by auto
  show ?case
  proof (cases v)
    case (JObj cps)
    show ?thesis
    proof (cases "cps = []")
      case True
      then show ?thesis using JObj disj[of "[([key], v)]"] by simp
    next
      case False
      then have "distinct (map fst (leaves cps))" using "2.IH" "2.prems" JObj by simp
      then show ?thesis using JObj False disj[OF inj hd, of cps] by simp
    qed
  next
    case (JArr cps)
    show ?thesis
    proof (cases "cps = []")
      case True
      then show ?thesis using JArr disj[of "[([key], v)]"] by simp
    next
      case False
      then have "distinct (map fst (leaves cps))" using "2.IH" "2.prems" JArr by simp
      then show ?thesis using JArr False disj[OF inj hd, of cps] by simp
    qed
  qed (use disj[of "[([key], v)]"] in \<open>simp_all\<close>)
qed

lemma fold_set_path_leaves:
  assumes "wf_props T0" "distinct (map fst raw)"
    and "\<forall>(n, v)\<in>set raw. is_leaf v \<and> (\<forall>s\<in>set (segs n). plain_seg js s)"
    and "\<forall>n\<in>fst ` set raw. \<forall>n'\<in>fst ` set raw. n \<noteq> n' \<longrightarrow> \<not> prefix (segs n) (segs n')"
    and "\<forall>(q, x)\<in>set (leaves T0). \<forall>n\<in>fst ` set raw. \<not> prefix q (segs n) \<and> \<not> prefix (segs n) q"
  shows "set (leaves (fold (\<lambda>(key, v) result. set_path js False (segs key) v result) raw T0))
           = set (leaves T0) \<union> (\<lambda>(n, v). (segs n, v)) ` set raw \<and>
         wf_props (fold (\<lambda>(key, v) result. set_path js False (segs key) v result) raw T0)"
  using assms
proof (induction raw arbitrary: T0)
  case Nil
  then show ?case by simp
next
  case (Cons e raw)
  obtain n v where e: "e = (n, v)" by (cases e)
  let ?T1 = "set_path js False (segs n) v T0"
  have ne: "segs n \<noteq> []" unfolding segs_def by (rule split_on_nonempty)
  have c0: "\<forall>(q, x)\<in>set (leaves T0). \<not> prefix q (segs n) \<and> \<not> prefix (segs n) q"
    using Cons.prems(5) e by auto
  have ins: "set (leaves ?T1) = set (leaves T0) \<union> {(segs n, v)} \<and> wf_props ?T1"
    using set_path_insert[OF Cons.prems(1) ne _ _ c0, of js v] Cons.prems(3) e by auto
  have nn: "n \<notin> fst ` set raw" using Cons.prems(2) e by auto
  have c1: "\<forall>(q, x)\<in>set (leaves ?T1). \<forall>n'\<in>fst ` set raw. \<not> prefix q (segs n') \<and> \<not> prefix (segs n') q"
  proof (clarify)
    fix q x n' w assume qx: "(q, x) \<in> set (leaves ?T1)" and n': "(n', w) \<in> set raw"
    have n'in: "n' \<in> fst ` set (e # raw)" using n' by force
    have nin: "n \<in> fst ` set (e # raw)" using e by simp
    have neq: "n \<noteq> n'" using nn n' by force
    from qx ins consider "(q, x) \<in> set (leaves T0)" | "q = segs n" by auto
    then show "\<not> prefix q (segs (fst (n', w))) \<and> \<not> prefix (segs (fst (n', w))) q"
    proof cases
      case 1
      then show ?thesis using Cons.prems(5) n'in by auto
    next
      case 2
      have a: "\<not> prefix (segs n) (segs n')" using Cons.prems(4) nin n'in neq by blast
      have "n' \<noteq> n" using neq by simp
      then have b: "\<not> prefix (segs n') (segs n)" using Cons.prems(4) nin n'in by blast
      show ?thesis using a b 2 by simp
    qed
  qed
  have ih: "set (leaves (fold (\<lambda>(key, v) result. set_path js False (segs key) v result) raw ?T1))
           = set (leaves ?T1) \<union> (\<lambda>(n, v). (segs n, v)) ` set raw \<and>
         wf_props (fold (\<lambda>(key, v) result. set_path js False (segs key) v result) raw ?T1)"
    using Cons.IH[of ?T1] ins Cons.prems(2,3,4) c1 by auto
  show ?case using ih ins e by auto
qed

lemma fold_obj_set_map:
  assumes "distinct (map (\<lambda>e. f (fst e)) xs)"
  shows "fold (\<lambda>(p, x) out. obj_set (f p) x out) xs [] = map (\<lambda>(p, x). (f p, x)) xs"
proof -
  have "fold (\<lambda>(p, x) out. obj_set (f p) x out) xs []
      = fold (\<lambda>(k, v) s. obj_set k v s) (map (\<lambda>(p, x). (f p, x)) xs) []"
    by (simp add: fold_map comp_def case_prod_unfold)
  also have "\<dots> = [] @ map (\<lambda>(p, x). (f p, x)) xs"
    using assms by (intro fold_obj_set_append) (simp_all add: comp_def case_prod_unfold)
  finally show ?thesis by simp
qed

lemma unflatten_reduce_leaves:
  assumes "distinct (map fst raw)" "\<forall>(n, v)\<in>set raw. is_leaf v"
  shows "unflatten_reduce raw = raw"
proof -
  have "fold (\<lambda>(key, v) result.
             if \<not> is_container v \<or> own_props v = [] then obj_set key v result
             else fold (\<lambda>(k, v') r. obj_set (addDelimiter key k) v' r) (flatten v) result) raw []
      = fold (\<lambda>(k, v) s. obj_set k v s) raw []"
    using assms(2) by (intro fold_cong) (auto simp: is_leaf_def)
  also have "\<dots> = [] @ raw"
    using assms(1) by (intro fold_obj_set_append) simp_all
  finally show ?thesis by (simp add: unflatten_reduce_def)
qed

lemma plain_path_name:
  assumes "\<forall>s\<in>set (segs n). plain_seg js s"
  shows "path_name [] (segs n) = n"
proof -
  have "segs n \<noteq> []" unfolding segs_def by (rule split_on_nonempty)
  moreover have "\<forall>s\<in>set (segs n). s \<noteq> []" using assms by (simp add: plain_seg_def)
  ultimately have "path_name [] (segs n) = join_dot (segs n)"
    using path_name_join[of "segs n" "[]"] by simp
  then show ?thesis by (simp add: segs_def join_split)
qed

lemma unflatten_flatten:
  assumes d: "distinct (map fst raw)" and l: "\<forall>(n, v)\<in>set raw. is_leaf v"
    and pp: "proper_paths js (map fst raw)"
  shows "set (flatten (unflatten js (JObj raw))) = set raw \<and>
         distinct (map fst (flatten (unflatten js (JObj raw))))"
proof -
  define T where "T = fold (\<lambda>(key, v) result. set_path js False (segs key) v result) raw []"
  have u: "unflatten js (JObj raw) = JObj T"
    by (simp add: unflatten_def T_def segs_def unflatten_reduce_leaves[OF d l])
  have pl: "\<forall>(n, v)\<in>set raw. is_leaf v \<and> (\<forall>s\<in>set (segs n). plain_seg js s)"
    using l pp unfolding proper_paths_def by force
  have pf: "\<forall>n\<in>fst ` set raw. \<forall>n'\<in>fst ` set raw. n \<noteq> n' \<longrightarrow> \<not> prefix (segs n) (segs n')"
    using pp unfolding proper_paths_def by simp
  have LT: "set (leaves T) = (\<lambda>(n, v). (segs n, v)) ` set raw" and wfT: "wf_props T"
    using fold_set_path_leaves[of "[]" raw js, OF _ d pl pf] unfolding T_def by simp_all
  have names: "\<And>e. e \<in> set (leaves T) \<Longrightarrow> \<exists>n v. (n, v) \<in> set raw \<and> e = (segs n, v) \<and> path_name [] (fst e) = n"
  proof -
    fix e assume "e \<in> set (leaves T)"
    then obtain n v where nv: "(n, v) \<in> set raw" "e = (segs n, v)" unfolding LT by auto
    then have "path_name [] (segs n) = n" using plain_path_name pl by blast
    then show "\<exists>n v. (n, v) \<in> set raw \<and> e = (segs n, v) \<and> path_name [] (fst e) = n"
      using nv by auto
  qed
  have inj: "inj_on (\<lambda>e. path_name [] (fst e)) (set (leaves T))"
  proof (rule inj_onI)
    fix a b assume a: "a \<in> set (leaves T)" and b: "b \<in> set (leaves T)"
      and eq: "path_name [] (fst a) = path_name [] (fst b)"
    obtain n v where 1: "(n, v) \<in> set raw" "a = (segs n, v)" "path_name [] (fst a) = n"
      using names[OF a] by blast
    obtain n' v' where 2: "(n', v') \<in> set raw" "b = (segs n', v')" "path_name [] (fst b) = n'"
      using names[OF b] by blast
    have "n = n'" using eq 1 2 by simp
    then have "fst a = fst b" using 1 2 by simp
    moreover have "inj_on fst (set (leaves T))"
      using wf_leaves_distinct[OF wfT] by (metis distinct_map)
    ultimately show "a = b" using a b by (simp add: inj_on_def)
  qed
  have dl: "distinct (leaves T)" using wf_leaves_distinct[OF wfT] by (metis distinct_map)
  have dk: "distinct (map (\<lambda>e. path_name [] (fst e)) (leaves T))"
    using dl inj by (simp add: distinct_map)
  have fl: "flatten (JObj T) = map (\<lambda>(p, x). (path_name [] p, x)) (leaves T)"
    unfolding flatten_def step_leaves using fold_obj_set_map[OF dk] by simp
  have "set (flatten (JObj T)) = set raw"
  proof (intro set_eqI iffI)
    fix e assume "e \<in> set (flatten (JObj T))"
    then obtain l where l: "l \<in> set (leaves T)" "e = (path_name [] (fst l), snd l)"
      unfolding fl by (auto simp: case_prod_unfold)
    obtain n v where nv: "(n, v) \<in> set raw" "l = (segs n, v)" "path_name [] (fst l) = n"
      using names[OF l(1)] by blast
    have "snd l = v" using nv(2) by simp
    then show "e \<in> set raw" using l(2) nv(1,3) by simp
  next
    fix e assume e: "e \<in> set raw"
    obtain n v where nv: "e = (n, v)" by (cases e)
    then have "(segs n, v) \<in> set (leaves T)" unfolding LT using e by force
    moreover have "path_name [] (segs n) = n" using plain_path_name pl e nv by blast
    ultimately show "e \<in> set (flatten (JObj T))" unfolding fl nv by force
  qed
  moreover have "distinct (map fst (flatten (JObj T)))"
    unfolding fl using dk by (simp add: comp_def case_prod_unfold)
  ultimately show ?thesis unfolding u by simp
qed

lemma split_on_no_delim: "d \<notin> set s \<Longrightarrow> split_on d s = [s]"
  by (induction s) auto

lemma split_on_append_delim:
  "d \<notin> set s \<Longrightarrow> split_on d (s @ d # r) = s # split_on d r"
  by (induction s) auto

lemma split_join:
  "p \<noteq> [] \<Longrightarrow> \<forall>s\<in>set p. CHR ''.'' \<notin> set s \<Longrightarrow> split_on CHR ''.'' (join_dot p) = p"
proof (induction p rule: join_dot.induct)
  case 1
  then show ?case by simp
next
  case (2 s)
  then show ?case by (simp add: split_on_no_delim)
next
  case (3 s t r)
  then show ?case by (simp add: split_on_append_delim)
qed

lemma leaves_plain:
  "plain_props js T \<Longrightarrow> (p, x) \<in> set (leaves T) \<Longrightarrow>
     p \<noteq> [] \<and> (\<forall>s\<in>set p. plain_seg js s \<and> CHR ''.'' \<notin> set s)"
proof (induction T arbitrary: p rule: leaves.induct)
  case 1
  then show ?case by simp
next
  case (2 key v rest)
  show ?case
  proof (cases v)
    case (JObj cps)
    with 2 show ?thesis by (cases "cps = []") auto
  next
    case (JArr cps)
    with 2 show ?thesis by (cases "cps = []") auto
  qed (use 2 in auto)
qed

lemma leaves_prefix_free:
  "wf_props T \<Longrightarrow> (p, x) \<in> set (leaves T) \<Longrightarrow> (q, y) \<in> set (leaves T) \<Longrightarrow>
     prefix p q \<Longrightarrow> p = q"
proof (induction T arbitrary: p q rule: leaves.induct)
  case 1
  then show ?case by simp
next
  case (2 key v rest)
  have wr: "wf_props rest" and kn: "key \<notin> fst ` set rest" using "2.prems"(1) by auto
  let ?e = "leaves [(key, v)]"
  have lv: "leaves ((key, v) # rest) = ?e @ leaves rest"
    using leaves_append[of "[(key, v)]" rest] by simp
  have hd_e: "\<And>a b. (a, b) \<in> set ?e \<Longrightarrow> \<exists>a'. a = key # a'"
    using leaves_single_hd by blast
  have hd_r: "\<And>a b. (a, b) \<in> set (leaves rest) \<Longrightarrow> \<exists>k a'. a = k # a' \<and> k \<noteq> key"
    using leaves_hd kn by metis
  have inside: "(p, x) \<in> set ?e \<Longrightarrow> (q, y) \<in> set ?e \<Longrightarrow> p = q"
  proof -
    assume pe: "(p, x) \<in> set ?e" and qe: "(q, y) \<in> set ?e"
    show "p = q"
    proof (cases "is_leaf v")
      case True
      then show ?thesis using pe qe leaves_leaf[of v key] by simp
    next
      case False
      then obtain cps where cps: "v = JObj cps \<or> v = JArr cps" "cps \<noteq> []"
        by (cases v) (auto simp: is_leaf_def)
      then have le: "?e = map (\<lambda>(p, x). (key # p, x)) (leaves cps)" by auto
      obtain p' where p': "p = key # p'" "(p', x) \<in> set (leaves cps)" using pe le by auto
      obtain q' where q': "q = key # q'" "(q', y) \<in> set (leaves cps)" using qe le by auto
      have "wf_props cps" using "2.prems"(1) cps by auto
      moreover have "prefix p' q'" using "2.prems"(4) p' q' by simp
      ultimately have "p' = q'" using "2.IH" cps p' q' by blast
      then show ?thesis using p' q' by simp
    qed
  qed
  from "2.prems"(2,3) lv consider
      "(p, x) \<in> set ?e" "(q, y) \<in> set ?e"
    | "(p, x) \<in> set ?e" "(q, y) \<in> set (leaves rest)"
    | "(p, x) \<in> set (leaves rest)" "(q, y) \<in> set ?e"
    | "(p, x) \<in> set (leaves rest)" "(q, y) \<in> set (leaves rest)"
    by auto
  then show ?case
  proof cases
    case 1
    then show ?thesis using inside by simp
  next
    case 2
    then show ?thesis using hd_e[of p x] hd_r[of q y] "2.prems"(4) by auto
  next
    case 3
    then show ?thesis using hd_e[of q y] hd_r[of p x] "2.prems"(4) by auto
  next
    case 4
    then show ?thesis using "2.IH" wr "2.prems"(4) by blast
  qed
qed

lemma flatten_names_paths:
  assumes "n \<in> set (Object_keys (flatten t))"
  shows "\<exists>p x. (p, x) \<in> set (leaves (own_props t)) \<and> n = path_name [] p"
proof -
  have "\<And>out. set (map fst (fold (\<lambda>(p, x) out. obj_set (path_name [] p) x out) xs out))
      \<subseteq> set (map fst out) \<union> (\<lambda>e. path_name [] (fst e)) ` set xs" for xs :: "(string list \<times> jsval) list"
  proof (induction xs)
    case Nil
    then show ?case by simp
  next
    case (Cons a xs)
    obtain p x where a: "a = (p, x)" by (cases a)
    have "set (map fst (obj_set (path_name [] p) x out)) \<subseteq> insert (path_name [] p) (set (map fst out))"
      unfolding obj_set_keys by auto
    moreover have "set (map fst (fold (\<lambda>(p, x) out. obj_set (path_name [] p) x out) xs (obj_set (path_name [] p) x out)))
      \<subseteq> set (map fst (obj_set (path_name [] p) x out)) \<union> (\<lambda>e. path_name [] (fst e)) ` set xs"
      using Cons[of "obj_set (path_name [] p) x out"] .
    ultimately show ?case unfolding a by (simp add: subset_iff) blast
  qed
  from this[of "leaves (own_props t)" "[]"] assms
  have "n \<in> (\<lambda>e. path_name [] (fst e)) ` set (leaves (own_props t))"
    unfolding flatten_def step_leaves Object_keys_def by auto
  then obtain e where e: "e \<in> set (leaves (own_props t))" "n = path_name [] (fst e)" by blast
  obtain p x where px: "e = (p, x)" by (cases e)
  show ?thesis
    apply (rule exI[of _ p])
    apply (rule exI[of _ x])
    using e px by simp
qed

lemma plain_object_proper_paths:
  assumes wf: "wf_props (own_props messages)" and pl: "plain_props js (own_props messages)"
    and sub: "set names \<subseteq> set (Object_keys (flatten messages))"
  shows "proper_paths js names"
proof -
  let ?T = "own_props messages"
  have path: "\<And>n. n \<in> set names \<Longrightarrow> \<exists>x. (segs n, x) \<in> set (leaves ?T) \<and> join_dot (segs n) = n"
  proof -
    fix n assume "n \<in> set names"
    then obtain p x where px: "(p, x) \<in> set (leaves ?T)" "n = path_name [] p"
      using flatten_names_paths sub by blast
    have pp: "p \<noteq> []" "\<forall>s\<in>set p. plain_seg js s \<and> CHR ''.'' \<notin> set s"
      using leaves_plain[OF pl px(1)] by auto
    then have "\<forall>s\<in>set p. s \<noteq> []" by (auto simp: plain_seg_def)
    then have "n = join_dot p" using px(2) path_name_join[OF pp(1), of "[]"] by simp
    moreover have "segs (join_dot p) = p" unfolding segs_def using split_join pp by blast
    ultimately show "\<exists>x. (segs n, x) \<in> set (leaves ?T) \<and> join_dot (segs n) = n"
      using px(1) by auto
  qed
  have a: "\<forall>n\<in>set names. \<forall>s\<in>set (segs n). plain_seg js s"
    using path leaves_plain[OF pl] by blast
  have b: "\<forall>n\<in>set names. \<forall>n'\<in>set names. n \<noteq> n' \<longrightarrow> \<not> prefix (segs n) (segs n')"
  proof (intro ballI impI notI)
    fix n n' assume n: "n \<in> set names" and n': "n' \<in> set names" and ne: "n \<noteq> n'"
      and pr: "prefix (segs n) (segs n')"
    obtain x where x: "(segs n, x) \<in> set (leaves ?T)" "join_dot (segs n) = n" using path[OF n] by blast
    obtain y where y: "(segs n', y) \<in> set (leaves ?T)" "join_dot (segs n') = n'" using path[OF n'] by blast
    have "segs n = segs n'" using leaves_prefix_free[OF wf x(1) y(1) pr] .
    then show False using x(2) y(2) ne by simp
  qed
  show ?thesis unfolding proper_paths_def using a b by simp
qed

lemma fold_names_raw:
  "distinct R \<Longrightarrow> fold (\<lambda>n raw. obj_set n (g n) raw) R [] = map (\<lambda>n. (n, g n)) R"
proof -
  assume d: "distinct R"
  have "fold (\<lambda>n raw. obj_set n (g n) raw) R []
      = fold (\<lambda>(k, v) s. obj_set k v s) (map (\<lambda>n. (n, g n)) R) []"
    by (simp add: fold_map comp_def)
  also have "\<dots> = [] @ map (\<lambda>n. (n, g n)) R"
    using d by (intro fold_obj_set_append) (simp_all add: comp_def)
  finally show ?thesis by simp
qed

lemma encodeRevealed_loop_ok:
  assumes "\<forall>(n, v)\<in>set E. \<exists>i. indexOf names n = Some i \<and> enc n v = Inr (vals ! i)"
  shows "encodeRevealed_loop enc names E acc
     = Inr (fold (\<lambda>(n, v) acc. obj_set (the (indexOf names n)) (vals ! the (indexOf names n)) acc) E acc)"
  using assms
proof (induction E arbitrary: acc)
  case Nil
  then show ?case by simp
next
  case (Cons e E)
  obtain n v where e: "e = (n, v)" by (cases e)
  obtain i where i: "indexOf names n = Some i" "enc n v = Inr (vals ! i)"
    using Cons.prems e by auto
  show ?case using Cons e i by simp
qed

lemma getRevealedAndUnrevealed_Inr_encoder:
  assumes "getRevealedAndUnrevealed js messages R enc = Inr r"
  shows "\<exists>names vals. encodeMessageObject enc messages = Inr (names, vals)"
  using assms by (cases "encodeMessageObject enc messages") (auto simp: getRevealedAndUnrevealed_def)




lemma ps_witnesses_ok:
  assumes "\<forall>idx\<in>fst ` set xs. map_of blindings idx \<noteq> None"
  shows "map_result
           (\<lambda>(idx, msg). case map_of blindings idx of
                             None \<Rightarrow> Inl (MissingBlinding idx)
                           | Some b \<Rightarrow> Inr (pedersenCommitment [b, msg])) xs
         = Inr (map (\<lambda>(idx, msg). pedersenCommitment [the (map_of blindings idx), msg]) xs)"
  using assms
proof (induction xs)
  case Nil
  then show ?case by simp
next
  case (Cons x xs)
  obtain idx msg where x: "x = (idx, msg)" by (cases x)
  obtain b where b: "map_of blindings idx = Some b" using Cons.prems x by auto
  have "\<forall>idx\<in>fst ` set xs. map_of blindings idx \<noteq> None" using Cons.prems by simp
  then show ?case using Cons.IH x b by simp
qed

lemma ps_witnesses_missing:
  fixes xs :: "(int \<times> 'm) list"
  assumes "sorted (map fst xs)" and "\<exists>idx\<in>fst ` set xs. map_of blindings idx = None"
  shows "map_result
           (\<lambda>(idx, msg). case map_of blindings idx of
                             None \<Rightarrow> Inl (MissingBlinding idx)
                           | Some b \<Rightarrow> Inr (pedersenCommitment [b, msg])) xs
         = Inl (MissingBlinding (Min {idx \<in> fst ` set xs. map_of blindings idx = None}))"
  using assms
proof (induction xs)
  case Nil
  then show ?case by simp
next
  case (Cons x xs)
  obtain idx msg where x: "x = (idx, msg)" by (cases x)
  let ?S = "{i \<in> fst ` set (x # xs). map_of blindings i = None}"
  have fin: "finite ?S" by simp
  show ?case
  proof (cases "map_of blindings idx")
    case None
    have "idx \<in> ?S" using None x by simp
    moreover have "\<forall>i\<in>?S. idx \<le> i" using Cons.prems(1) x by auto
    ultimately have "Min ?S = idx" using fin by (intro Min_eqI) auto
    then show ?thesis using None x by simp
  next
    case (Some b)
    have S: "?S = {i \<in> fst ` set xs. map_of blindings i = None}" using Some x by auto
    have "\<exists>i\<in>fst ` set xs. map_of blindings i = None" using Cons.prems(2) Some x by auto
    moreover have "sorted (map fst xs)" using Cons.prems(1) by simp
    ultimately have "map_result
           (\<lambda>(idx, msg). case map_of blindings idx of
                             None \<Rightarrow> Inl (MissingBlinding idx)
                           | Some b \<Rightarrow> Inr (pedersenCommitment [b, msg])) xs
         = Inl (MissingBlinding (Min {i \<in> fst ` set xs. map_of blindings i = None}))"
      using Cons.IH by simp
    then show ?thesis unfolding S using Some x by simp
  qed
qed

section \<open>The claims\<close>

subsection \<open>Partition into revealed and unrevealed messages\<close>






subsection \<open>Canonical indices\<close>

text \<open>
  Claim C4, as amended. For the attributes \<open>ssn, fname, lname, email, city\<close> the sorted
  list of flattened paths is \<open>city, email, fname, lname, ssn\<close>, so the names \<open>lname\<close> and
  \<open>city\<close> have the canonical indices 3 and 0, and revealing them gives the revealed keys
  0 and 3. The indices 2 and 4 are the positions of \<open>lname\<close> and \<open>city\<close> in the order in
  which the test of \<^verbatim>\<open>src/unnamed/part_000\<close> pushes the five messages.
\<close>

theorem canonical_indices_lname_city:
  "sort (Object_keys (flattenMessageStructure attributesStruct))
     = [''city'', ''email'', ''fname'', ''lname'', ''ssn''] \<and>
   getIndicesForMsgNames [''lname'', ''city''] attributesStruct = Inr [3, 0] \<and>
   map_sum id (\<lambda>(r, u, raw). (map fst r, map fst u))
     (getRevealedAndUnrevealed example_js attributes [''lname'', ''city''] utf8_encoder)
     = Inr ([0, 3], [1, 2, 4]) \<and>
   indexOf (Object_keys (own_props attributesStruct)) ''lname'' = Some 2 \<and>
   indexOf (Object_keys (own_props attributesStruct)) ''city'' = Some 4"
  by (simp add: eval_defs)

text \<open>
  The claim as it was stated, canonical indices \<open>{2, 4}\<close> for \<open>lname\<close> and \<open>city\<close>, fails.
\<close>

theorem canonical_indices_not_2_4:
  "set (projr (getIndicesForMsgNames [''lname'', ''city''] attributesStruct)) \<noteq> {2, 4}"
proof
  assume eq: "set (projr (getIndicesForMsgNames [''lname'', ''city''] attributesStruct)) = {2, 4}"
  have "0 \<in> set (projr (getIndicesForMsgNames [''lname'', ''city''] attributesStruct))"
    by (simp add: eval_defs)
  with eq show False by simp
qed

text \<open>
  Claim C7. \<^verbatim>\<open>createWitnessEqualityMetaStatement\<close> returns a MetaStatement exactly when
  every name of every entry is a flattened leaf of that entry's structure, and the
  MetaStatement then holds exactly the references (statement index, canonical index of
  the name in the entry's own structure); it throws exactly when some name is not
  found. \<^verbatim>\<open>getIndicesForMsgNames\<close> returns the canonical indices in the order of the given
  names, and the canonical index of a name is its position in the sorted list of the
  flattened paths.
\<close>

theorem createWitnessEqualityMetaStatement_refs:
  "(createWitnessEqualityMetaStatement equality = Inr ms \<longleftrightarrow>
      (\<forall>(sIdx, names, struct)\<in>set equality.
          \<forall>n\<in>set names. n \<in> set (Object_keys (flattenMessageStructure struct))) \<and>
      ms = {(sIdx, i). \<exists>names struct n. (sIdx, names, struct) \<in> set equality \<and>
                n \<in> set names \<and> CanonicalIndex struct n = Some i}) \<and>
   ((\<exists>e. createWitnessEqualityMetaStatement equality = Inl e) \<longleftrightarrow>
      (\<exists>(sIdx, names, struct)\<in>set equality.
          \<exists>n\<in>set names. n \<notin> set (Object_keys (flattenMessageStructure struct)))) \<and>
   (getIndicesForMsgNames msgNames msgStructure = Inr indices \<longleftrightarrow>
      map (CanonicalIndex msgStructure) msgNames = map Some indices) \<and>
   (CanonicalIndex msgStructure n = Some i \<longleftrightarrow>
      i < length (sort (Object_keys (flattenMessageStructure msgStructure))) \<and>
      sort (Object_keys (flattenMessageStructure msgStructure)) ! i = n)"
proof -
  have found: "\<And>struct n. (CanonicalIndex struct n \<noteq> None)
      = (n \<in> set (Object_keys (flattenMessageStructure struct)))"
    by (simp add: CanonicalIndex_def Let_def)
  have a: "createWitnessEqualityMetaStatement equality = Inr ms \<longleftrightarrow>
      (\<forall>(sIdx, names, struct)\<in>set equality.
          \<forall>n\<in>set names. n \<in> set (Object_keys (flattenMessageStructure struct))) \<and>
      ms = {(sIdx, i). \<exists>names struct n. (sIdx, names, struct) \<in> set equality \<and>
                n \<in> set names \<and> CanonicalIndex struct n = Some i}"
    unfolding createWitnessEqualityMetaStatement_def loop_Inr_iff found by simp
  have "(\<exists>e. createWitnessEqualityMetaStatement equality = Inl e)
      = (\<not> (\<exists>ms. createWitnessEqualityMetaStatement equality = Inr ms))"
    by (cases "createWitnessEqualityMetaStatement equality") auto
  also have "\<dots> = (\<not> (\<forall>(sIdx, names, struct)\<in>set equality.
          \<forall>n\<in>set names. n \<in> set (Object_keys (flattenMessageStructure struct))))"
    unfolding createWitnessEqualityMetaStatement_def loop_Inr_iff found by simp
  also have "\<dots> = (\<exists>(sIdx, names, struct)\<in>set equality.
          \<exists>n\<in>set names. n \<notin> set (Object_keys (flattenMessageStructure struct)))"
    by (auto simp: case_prod_beta)
  finally have b: "(\<exists>e. createWitnessEqualityMetaStatement equality = Inl e) \<longleftrightarrow>
      (\<exists>(sIdx, names, struct)\<in>set equality.
          \<exists>n\<in>set names. n \<notin> set (Object_keys (flattenMessageStructure struct)))" .
  let ?s = "sort (Object_keys (flattenMessageStructure msgStructure))"
  have d: "distinct ?s" by (simp add: flattenMessageStructure_def flatten_distinct)
  have "CanonicalIndex msgStructure n = Some i \<longleftrightarrow> indexOf ?s n = Some i"
    by (simp add: indexOf_CanonicalIndex)
  also have "\<dots> \<longleftrightarrow> i < length ?s \<and> ?s ! i = n"
    using d by (auto simp: indexOf_Some_iff nth_eq_iff_index_eq)
  finally have c: "CanonicalIndex msgStructure n = Some i \<longleftrightarrow> i < length ?s \<and> ?s ! i = n" .
  show ?thesis
    apply (intro conjI)
    apply (rule a)
    apply (rule b)
    apply (rule getIndices_Inr_iff)
    apply (rule c)
    done
qed

theorem createWitnessEqualityMetaStatement_refs_witness:
  "createWitnessEqualityMetaStatement
     [(0, [''lname'', ''city''], attributesStruct), (1, [''b''], JObj [(''b'', JNull), (''a'', JNull)])]
     = Inr {(0, 3), (0, 0), (1, 1)} \<and>
   (\<exists>e. createWitnessEqualityMetaStatement [(0, [''zip''], attributesStruct)] = Inl e)"
proof -
  have 1: "createWitnessEqualityMetaStatement
     [(0, [''lname'', ''city''], attributesStruct), (1, [''b''], JObj [(''b'', JNull), (''a'', JNull)])]
     = Inr {(0, 3), (0, 0), (1, 1)}"
    by (simp add: createWitnessEqualityMetaStatement_def addWitnessRef_def eval_defs insert_commute numeral_3_eq_3)
  have "\<exists>(sIdx, names, struct)\<in>set [(0::int, [''zip''], attributesStruct)].
          \<exists>n\<in>set names. n \<notin> set (Object_keys (flattenMessageStructure struct))"
    by (simp add: eval_defs)
  then have 2: "\<exists>e. createWitnessEqualityMetaStatement [(0, [''zip''], attributesStruct)] = Inl e"
    using createWitnessEqualityMetaStatement_refs[of "[(0, [''zip''], attributesStruct)]"]
    by blast
  show ?thesis using 1 2 by blast
qed

subsection \<open>Blind signature witnesses\<close>

text \<open>
  Claim C9. Let the message indices of the messages map be distinct, and let
  \<open>sortedMessages\<close> be its entries in ascending order of the message index. Then
  \<^verbatim>\<open>getBBSWitnessForBlindSigRequest\<close> returns the Pedersen commitment witness of the
  messages in that order; \<^verbatim>\<open>getBBSPlusWitnessForBlindSigRequest\<close> returns the witness of
  the blinding followed by the messages in that order;
  \<^verbatim>\<open>getPSWitnessesForBlindSigRequest\<close> returns that same witness followed by one witness of
  \<open>[blindings(idx), msg]\<close> for each entry in that order, or throws for the least message
  index that has no blinding. So for two lists of the same entries, whatever the
  insertion order, each builder gives the same output.
\<close>

theorem blind_sig_witness_insertion_order:
  assumes "distinct (map fst messages)" and "mset messages' = mset messages"
  shows "getBBSWitnessForBlindSigRequest pedersenCommitment messages'
           = getBBSWitnessForBlindSigRequest pedersenCommitment messages \<and>
         getBBSPlusWitnessForBlindSigRequest pedersenCommitment messages' blinding
           = getBBSPlusWitnessForBlindSigRequest pedersenCommitment messages blinding \<and>
         getPSWitnessesForBlindSigRequest pedersenCommitment messages' blinding blindings
           = getPSWitnessesForBlindSigRequest pedersenCommitment messages blinding blindings \<and>
         (\<exists>sortedMessages.
            mset sortedMessages = mset messages \<and> sorted (map fst sortedMessages) \<and>
            getBBSWitnessForBlindSigRequest pedersenCommitment messages
              = pedersenCommitment (map snd sortedMessages) \<and>
            getBBSPlusWitnessForBlindSigRequest pedersenCommitment messages blinding
              = pedersenCommitment (blinding # map snd sortedMessages) \<and>
            ((\<forall>idx\<in>fst ` set messages. map_of blindings idx \<noteq> None) \<longrightarrow>
               getPSWitnessesForBlindSigRequest pedersenCommitment messages blinding blindings
                 = Inr (pedersenCommitment (blinding # map snd sortedMessages)
                        # map (\<lambda>(idx, msg). pedersenCommitment [the (map_of blindings idx), msg])
                            sortedMessages)) \<and>
            ((\<exists>idx\<in>fst ` set messages. map_of blindings idx = None) \<longrightarrow>
               getPSWitnessesForBlindSigRequest pedersenCommitment messages blinding blindings
                 = Inl (MissingBlinding
                         (Min {idx \<in> fst ` set messages. map_of blindings idx = None}))))"
proof -
  let ?s = "sort_key fst messages"
  have eq: "sort_key fst messages' = ?s" using sort_key_insertion_order[OF assms] .
  have f: "fst ` set ?s = fst ` set messages" by simp
  have ok: "(\<forall>idx\<in>fst ` set messages. map_of blindings idx \<noteq> None) \<longrightarrow>
               getPSWitnessesForBlindSigRequest pedersenCommitment messages blinding blindings
                 = Inr (pedersenCommitment (blinding # map snd ?s)
                        # map (\<lambda>(idx, msg). pedersenCommitment [the (map_of blindings idx), msg]) ?s)"
  proof
    assume "\<forall>idx\<in>fst ` set messages. map_of blindings idx \<noteq> None"
    then have "\<forall>idx\<in>fst ` set ?s. map_of blindings idx \<noteq> None" unfolding f .
    from ps_witnesses_ok[OF this, of pedersenCommitment]
    show "getPSWitnessesForBlindSigRequest pedersenCommitment messages blinding blindings
                 = Inr (pedersenCommitment (blinding # map snd ?s)
                        # map (\<lambda>(idx, msg). pedersenCommitment [the (map_of blindings idx), msg]) ?s)"
      by (simp add: getPSWitnessesForBlindSigRequest_def Let_def)
  qed
  have missing: "(\<exists>idx\<in>fst ` set messages. map_of blindings idx = None) \<longrightarrow>
               getPSWitnessesForBlindSigRequest pedersenCommitment messages blinding blindings
                 = Inl (MissingBlinding
                         (Min {idx \<in> fst ` set messages. map_of blindings idx = None}))"
  proof
    assume "\<exists>idx\<in>fst ` set messages. map_of blindings idx = None"
    then have m: "\<exists>idx\<in>fst ` set ?s. map_of blindings idx = None" unfolding f .
    have s: "sorted (map fst ?s)" by simp
    from ps_witnesses_missing[OF s m, of pedersenCommitment]
    show "getPSWitnessesForBlindSigRequest pedersenCommitment messages blinding blindings
                 = Inl (MissingBlinding
                         (Min {idx \<in> fst ` set messages. map_of blindings idx = None}))"
      unfolding f by (simp add: getPSWitnessesForBlindSigRequest_def Let_def)
  qed
  have inv: "getBBSWitnessForBlindSigRequest pedersenCommitment messages'
           = getBBSWitnessForBlindSigRequest pedersenCommitment messages \<and>
         getBBSPlusWitnessForBlindSigRequest pedersenCommitment messages' blinding
           = getBBSPlusWitnessForBlindSigRequest pedersenCommitment messages blinding \<and>
         getPSWitnessesForBlindSigRequest pedersenCommitment messages' blinding blindings
           = getPSWitnessesForBlindSigRequest pedersenCommitment messages blinding blindings"
    using eq
    by (simp add: getBBSWitnessForBlindSigRequest_def getBBSPlusWitnessForBlindSigRequest_def
        getPSWitnessesForBlindSigRequest_def)
  have out: "mset ?s = mset messages \<and> sorted (map fst ?s) \<and>
            getBBSWitnessForBlindSigRequest pedersenCommitment messages
              = pedersenCommitment (map snd ?s) \<and>
            getBBSPlusWitnessForBlindSigRequest pedersenCommitment messages blinding
              = pedersenCommitment (blinding # map snd ?s)"
    by (simp add: getBBSWitnessForBlindSigRequest_def getBBSPlusWitnessForBlindSigRequest_def)
  show ?thesis
    apply (intro conjI)
    apply (rule inv[THEN conjunct1])
    apply (rule inv[THEN conjunct2, THEN conjunct1])
    apply (rule inv[THEN conjunct2, THEN conjunct2])
    apply (rule exI[of _ ?s])
    using out ok missing apply blast
    done
qed

theorem blind_sig_witness_insertion_order_witness:
  "distinct (map fst [(2::int, [7::8 word]), (0, [9])]) \<and>
   mset [(0::int, [9::8 word]), (2, [7])] = mset [(2, [7]), (0, [9])] \<and>
   getBBSWitnessForBlindSigRequest concat [(0, [9]), (2, [7])]
     = getBBSWitnessForBlindSigRequest concat [(2, [7]), (0, [9])] \<and>
   getBBSWitnessForBlindSigRequest concat [(2, [7]), (0, [9])] = [9, 7] \<and>
   getBBSPlusWitnessForBlindSigRequest concat [(2, [7]), (0, [9])] [1] = [1, 9, 7] \<and>
   getPSWitnessesForBlindSigRequest concat [(0, [9]), (2, [7])] [1] [(2, [5]), (0, [4])]
     = getPSWitnessesForBlindSigRequest concat [(2, [7]), (0, [9])] [1] [(2, [5]), (0, [4])] \<and>
   getPSWitnessesForBlindSigRequest concat [(2, [7]), (0, [9])] [1] [(2, [5]), (0, [4])]
     = Inr [[1, 9, 7], [4, 9], [5, 7]] \<and>
   getPSWitnessesForBlindSigRequest concat [(2, [7]), (0, [9])] [1] []
     = Inl (MissingBlinding 0)"
proof -
  have h1: "distinct (map fst [(2::int, [7::8 word]), (0, [9])])" by simp
  have h2: "mset [(0::int, [9::8 word]), (2, [7])] = mset [(2, [7]), (0, [9])]" by simp
  have v: "getBBSWitnessForBlindSigRequest concat [(2::int, [7::8 word]), (0, [9])] = [9, 7]"
    "getBBSPlusWitnessForBlindSigRequest concat [(2::int, [7::8 word]), (0, [9])] [1] = [1, 9, 7]"
    "getPSWitnessesForBlindSigRequest concat [(2::int, [7::8 word]), (0, [9])] [1] [(2, [5]), (0, [4])]
       = Inr [[1, 9, 7], [4, 9], [5, 7]]"
    "getPSWitnessesForBlindSigRequest concat [(2::int, [7::8 word]), (0, [9])] [1] []
       = Inl (MissingBlinding 0)"
    by (simp_all add: getBBSWitnessForBlindSigRequest_def getBBSPlusWitnessForBlindSigRequest_def
        getPSWitnessesForBlindSigRequest_def)
  show ?thesis
    using blind_sig_witness_insertion_order[OF h1 h2, of concat "[1]" "[(2, [5]), (0, [4])]"] h1 h2 v
    by simp
qed

subsection \<open>Validity of a message structure\<close>

text \<open>
  Claim C10. \<^verbatim>\<open>isValidMsgStructure\<close> is a total function (its loop terminates), and it
  returns true exactly when the sorted flattened names of the messages and of the
  structure are the same list. When the two lists have the same length the loop decides
  equality position by position below that length; its last round, at the index equal
  to the length, reads \<^verbatim>\<open>undefined\<close> from both lists and returns true.
\<close>

theorem isValidMsgStructure_sorted_names:
  "(isValidMsgStructure messages msgStructure \<longleftrightarrow>
      sort (Object_keys (flatten messages))
        = sort (Object_keys (flattenMessageStructure msgStructure))) \<and>
   (length namesInMsgs = length namesInStruct \<longrightarrow>
      isValid_loop namesInStruct namesInMsgs 0
        = (\<forall>i<length namesInMsgs. namesInStruct ! i = namesInMsgs ! i) \<and>
      js_nth namesInStruct (length namesInMsgs) = None \<and>
      js_nth namesInMsgs (length namesInMsgs) = None \<and>
      isValid_loop namesInStruct namesInMsgs (length namesInMsgs))"
proof -
  have "length namesInMsgs = length namesInStruct \<Longrightarrow>
      isValid_loop namesInStruct namesInMsgs 0
        = (\<forall>i<length namesInMsgs. namesInStruct ! i = namesInMsgs ! i)"
    by (simp add: isValid_loop_same_length list_eq_iff_nth_eq)
  then show ?thesis
    using isValidMsgStructure_iff[of messages msgStructure] last_round[of namesInMsgs namesInStruct]
    by (simp add: js_nth_def)
qed

theorem isValidMsgStructure_sorted_names_witness:
  "isValidMsgStructure attributes attributesStruct \<and>
   \<not> isValidMsgStructure (JObj [(''ssn'', JStr ''1'')]) attributesStruct \<and>
   length [''a'', ''b''] = length [''a'', ''c''] \<and>
   \<not> isValid_loop [''a'', ''c''] [''a'', ''b''] 0 \<and>
   isValid_loop [''a'', ''c''] [''a'', ''b''] 2"
proof -
  have 1: "isValidMsgStructure attributes attributesStruct"
    using isValidMsgStructure_sorted_names[of attributes attributesStruct "[]" "[]"]
    by (simp add: eval_defs)
  have 2: "\<not> isValidMsgStructure (JObj [(''ssn'', JStr ''1'')]) attributesStruct"
    using isValidMsgStructure_sorted_names[of "JObj [(''ssn'', JStr ''1'')]" attributesStruct "[]" "[]"]
    by (simp add: eval_defs)
  have 3: "\<not> isValid_loop [''a'', ''c''] [''a'', ''b''] 0 \<and> isValid_loop [''a'', ''c''] [''a'', ''b''] 2"
    using isValidMsgStructure_sorted_names[of attributes attributesStruct "[''a'', ''b'']" "[''a'', ''c'']"]
    by (auto simp: less_Suc_eq numeral_2_eq_2)
  show ?thesis using 1 2 3 by simp
qed

subsection \<open>Signing a credential\<close>

text \<open>
  Claim C5. \<^verbatim>\<open>CredentialBuilder.sign\<close> compares the sorted flattened names of the
  serialized credential with the schema's flattened names (\<^verbatim>\<open>hasAllFieldsFromSchema\<close>).
  When the two lists differ it throws and no cryptographic call has been made; when they
  are equal it calls the signing primitive, once, on the serialized credential, with the
  given parameters or the default label, and it fails only if the primitive fails. A
  builder without a schema throws before any cryptographic call, too.
\<close>

theorem sign_checks_schema_fields:
  "(builder_schema b = None \<longrightarrow>
      sign c signMessageObject b secretKey signatureParams = ([], Inl TypeError)) \<and>
   (builder_schema b = Some sc \<longrightarrow>
      hasAllFieldsFromSchema (CredentialBuilder_serializeForSigning c b) sc
        = (sort (Object_keys (flatten (CredentialBuilder_serializeForSigning c b)))
             = schema_flatten_names sc) \<and>
      (sort (Object_keys (flatten (CredentialBuilder_serializeForSigning c b)))
         \<noteq> schema_flatten_names sc \<longrightarrow>
       sign c signMessageObject b secretKey signatureParams = ([], Inl MissingSchemaFields)) \<and>
      (sort (Object_keys (flatten (CredentialBuilder_serializeForSigning c b)))
         = schema_flatten_names sc \<longrightarrow>
       fst (sign c signMessageObject b secretKey signatureParams)
         = [SignMessageObject (CredentialBuilder_serializeForSigning c b) secretKey
              (case signatureParams of Some p \<Rightarrow> Inl p
               | None \<Rightarrow> Inr (SIGNATURE_PARAMS_LABEL_BYTES c))] \<and>
       (\<forall>e. snd (sign c signMessageObject b secretKey signatureParams) = Inl e \<longleftrightarrow>
            signMessageObject (CredentialBuilder_serializeForSigning c b) secretKey
              (case signatureParams of Some p \<Rightarrow> Inl p
               | None \<Rightarrow> Inr (SIGNATURE_PARAMS_LABEL_BYTES c))
              (schema_encoder sc) = Inl e)))"
  by (auto simp: sign_def hasAllFieldsFromSchema_def areArraysEqual_def Let_def split: sum.splits)

theorem sign_checks_schema_fields_witness:
  "builder_schema example_builder = Some example_schema \<and>
   sort (Object_keys (flatten (CredentialBuilder_serializeForSigning example_consts example_builder)))
     = schema_flatten_names example_schema \<and>
   fst (sign example_consts example_signer example_builder () None)
     = [SignMessageObject
          (JObj [(''cryptoVersion'', JStr ''0.0.1''), (''credentialSchema'', JStr ''{}''),
                 (''credentialSubject'', JObj [(''fname'', JStr ''John'')])])
          () (Inr [1, 2, 3])] \<and>
   builder_schema (example_builder\<lparr>builder_topLevelFields := [(''extra'', JNum 1)]\<rparr>)
     = Some example_schema \<and>
   sign example_consts example_signer
        (example_builder\<lparr>builder_topLevelFields := [(''extra'', JNum 1)]\<rparr>) () None
     = ([], Inl MissingSchemaFields)"
proof -
  have h1: "builder_schema example_builder = Some example_schema"
    by (simp add: example_builder_def)
  have h2: "sort (Object_keys (flatten (CredentialBuilder_serializeForSigning example_consts example_builder)))
     = schema_flatten_names example_schema"
    by (simp add: cred_eval_defs eval_defs)
  have s: "CredentialBuilder_serializeForSigning example_consts example_builder
     = JObj [(''cryptoVersion'', JStr ''0.0.1''), (''credentialSchema'', JStr ''{}''),
                 (''credentialSubject'', JObj [(''fname'', JStr ''John'')])]"
    by (simp add: cred_eval_defs)
  let ?b = "example_builder\<lparr>builder_topLevelFields := [(''extra'', JNum 1)]\<rparr>"
  have h3: "builder_schema ?b = Some example_schema"
    by (simp add: example_builder_def)
  have h4: "sort (Object_keys (flatten (CredentialBuilder_serializeForSigning example_consts ?b)))
     \<noteq> schema_flatten_names example_schema"
    by (simp add: cred_eval_defs eval_defs)
  have a: "fst (sign example_consts example_signer example_builder () None)
     = [SignMessageObject (CredentialBuilder_serializeForSigning example_consts example_builder)
          () (Inr (SIGNATURE_PARAMS_LABEL_BYTES example_consts))]"
    using sign_checks_schema_fields[of example_builder example_consts example_signer "()" None example_schema]
      h1 h2 by simp
  have b: "sign example_consts example_signer ?b () None = ([], Inl MissingSchemaFields)"
    using sign_checks_schema_fields[of ?b example_consts example_signer "()" None example_schema]
      h3 h4 by simp
  show ?thesis using h1 h2 h3 a b unfolding s by (simp add: example_consts_def)
qed

subsection \<open>The accumulator state\<close>

text \<open>
  Claim C8. In the accumulator state of the spec: from the empty state \<open>add e1\<close>
  succeeds and a second \<open>add e1\<close> fails; \<open>remove e2\<close> before any \<open>add e2\<close> fails;
  after the batch add of \<open>e3, e4\<close> the state has three members, the same batch add
  fails, and the state still has its three members. Every add, remove or batch operation
  that fails leaves the state as it was.
\<close>

theorem accumulator_contract:
  "(distinct [e1, e2, e3, e4] \<longrightarrow>
     (let (r1, s1) = accumulator_add e1 {};
          (r2, s2) = accumulator_add e1 s1;
          (r3, s3) = accumulator_remove e2 s2;
          (r4, s4) = accumulator_addBatch [e3, e4] s3;
          (r5, s5) = accumulator_addBatch [e3, e4] s4
      in r1 = Inr () \<and> card s1 = 1 \<and>
         r2 = Inl DuplicateMember \<and> s2 = s1 \<and>
         r3 = Inl NotAMember \<and> s3 = s2 \<and>
         r4 = Inr () \<and> card s4 = 3 \<and>
         r5 = Inl DuplicateMember \<and> s5 = s4 \<and> card s5 = 3)) \<and>
   (\<forall>e. fst (accumulator_add member state) = Inl e \<longrightarrow>
        snd (accumulator_add member state) = state) \<and>
   (\<forall>e. fst (accumulator_remove member state) = Inl e \<longrightarrow>
        snd (accumulator_remove member state) = state) \<and>
   (\<forall>e. fst (accumulator_addBatch members state) = Inl e \<longrightarrow>
        snd (accumulator_addBatch members state) = state) \<and>
   (\<forall>e. fst (accumulator_removeBatch members state) = Inl e \<longrightarrow>
        snd (accumulator_removeBatch members state) = state)"
  by (auto simp: accumulator_add_def accumulator_remove_def accumulator_addBatch_def
      accumulator_removeBatch_def split: sum.splits)

theorem accumulator_contract_witness:
  "distinct [101::nat, 102, 103, 104] \<and>
   fst (accumulator_add (101::nat) {}) = Inr () \<and>
   fst (accumulator_add (101::nat) {101}) = Inl DuplicateMember \<and>
   snd (accumulator_add (101::nat) {101}) = {101} \<and>
   fst (accumulator_remove (102::nat) {101}) = Inl NotAMember \<and>
   accumulator_addBatch [103::nat, 104] {101} = (Inr (), {104, 103, 101}) \<and>
   accumulator_addBatch [103::nat, 104] {104, 103, 101} = (Inl DuplicateMember, {104, 103, 101}) \<and>
   card {104::nat, 103, 101} = 3"
proof -
  have d: "distinct [101::nat, 102, 103, 104]" by simp
  have e: "accumulator_addBatch [103::nat, 104] {101} = (Inr (), {104, 103, 101})"
    by (simp add: accumulator_addBatch_def accumulator_add_def)
  have f: "fst (accumulator_addBatch [103::nat, 104] {104, 103, 101}) = Inl DuplicateMember"
    by (simp add: accumulator_addBatch_def accumulator_add_def)
  have g: "snd (accumulator_addBatch [103::nat, 104] {104, 103, 101}) = {104, 103, 101}"
    using accumulator_contract[where ?e1.0="101::nat" and ?e2.0=102 and ?e3.0=103 and ?e4.0=104
        and member=101 and members="[103::nat, 104]" and state="{104, 103, 101}"] f
    by simp
  show ?thesis using d e f g
    by (simp add: accumulator_add_def accumulator_remove_def prod_eq_iff)
qed

subsection \<open>Serializing a credential for signing\<close>




subsection \<open>The round trip between prover and verifier\<close>

text \<open>
  Claim C3, as amended. Let the messages be valid under the message structure, let
  \<^verbatim>\<open>getRevealedAndUnrevealed\<close> return the revealed map, the unrevealed map and the raw
  revealed object, and let the revealed names be proper paths: their pieces between the
  delimiters are plain, and no revealed name continues another revealed name by further
  pieces. Then \<^verbatim>\<open>encodeRevealedMsgs\<close> on the raw revealed object returns a map with the
  entries of the revealed map: the same indices with the same encoded values. By
  \<open>plain_object_proper_paths\<close> the names of an object are proper paths whenever its
  property names, at every depth, are plain and free of the delimiter.
\<close>

theorem revealed_round_trip:
  assumes valid: "isValidMsgStructure messages msgStructure"
    and R: "distinct revealedMsgNames"
    and pp: "proper_paths js revealedMsgNames"
    and res: "getRevealedAndUnrevealed js messages revealedMsgNames enc
                = Inr (revealedMsgs, unrevealedMsgs, revealedMsgsRaw)"
  shows "\<exists>revealed. encodeRevealedMsgs revealedMsgsRaw msgStructure enc = Inr revealed \<and>
           set revealed = set revealedMsgs \<and>
           distinct (map fst revealed) \<and> distinct (map fst revealedMsgs) \<and>
           map_of revealed = map_of revealedMsgs"
proof -
  obtain names vals where enc: "encodeMessageObject enc messages = Inr (names, vals)"
    using getRevealedAndUnrevealed_Inr_encoder[OF res] by blast
  let ?F = "flatten messages"
  let ?I = "filter (\<lambda>i. names ! i \<in> set revealedMsgNames) [0..<length names]"
  let ?rawflat = "map (\<lambda>n. (n, obj_get ?F n)) revealedMsgNames"
  note E = encodeMessageObject_Inr[OF enc]
  have sub: "set revealedMsgNames \<subseteq> set names"
    using getRevealedAndUnrevealed_result[OF enc R, of js] res by (auto split: if_splits)
  have rm: "revealedMsgs = map (\<lambda>i. (i, vals ! i)) ?I"
    and raw: "revealedMsgsRaw = unflatten js (JObj ?rawflat)"
    using getRevealedAndUnrevealed_result[OF enc R, of js] res sub
    by (simp_all add: fold_names_raw[OF R])
  have sn: "set names = set (Object_keys ?F)" using E(1) by simp
  have d1: "distinct (map fst ?rawflat)" using R by (simp add: comp_def)
  have l1: "\<forall>(n, v)\<in>set ?rawflat. is_leaf v"
  proof (clarify)
    fix n v assume "(n, v) \<in> set ?rawflat"
    then have n: "n \<in> set revealedMsgNames" and v: "v = obj_get ?F n" by auto
    then have "n \<in> fst ` set ?F" using sub sn by (auto simp: Object_keys_def)
    then obtain w where "map_of ?F n = Some w" by (metis map_of_eq_None_iff not_Some_eq)
    then have "(n, w) \<in> set ?F" "v = w" using v by (auto simp: obj_get_def dest: map_of_SomeD)
    then show "is_leaf v" using flatten_values_leaf by blast
  qed
  have p1: "proper_paths js (map fst ?rawflat)" using pp by (simp add: comp_def)
  define Ent where "Ent = flatten revealedMsgsRaw"
  have setE: "set Ent = set ?rawflat" and dE: "distinct (map fst Ent)"
    using unflatten_flatten[OF d1 l1 p1] unfolding Ent_def raw by simp_all
  have nm: "sort (Object_keys (flattenMessageStructure msgStructure)) = names"
    using valid E(1) by (simp add: isValidMsgStructure_iff)
  define idx where "idx n = the (indexOf names n)" for n
  have idx: "\<And>n. n \<in> set names \<Longrightarrow> indexOf names n = Some (idx n) \<and> idx n < length names \<and> names ! idx n = n"
  proof -
    fix n assume "n \<in> set names"
    then obtain i where "indexOf names n = Some i"
      using indexOf_None_iff[of names n] by fastforce
    then show "indexOf names n = Some (idx n) \<and> idx n < length names \<and> names ! idx n = n"
      unfolding idx_def using indexOf_Some_iff[of names n i] by simp
  qed
  have ok: "\<forall>(n, v)\<in>set Ent. \<exists>i. indexOf names n = Some i \<and> enc n v = Inr (vals ! i)"
  proof (clarify)
    fix n v assume "(n, v) \<in> set Ent"
    then have n: "n \<in> set revealedMsgNames" and v: "v = obj_get ?F n" unfolding setE by auto
    then have i: "indexOf names n = Some (idx n)" "idx n < length names" "names ! idx n = n"
      using idx sub by auto
    have "enc (names ! idx n) (obj_get ?F (names ! idx n)) = Inr (vals ! idx n)"
      using E(4)[OF i(2)] .
    then show "\<exists>i. indexOf names n = Some i \<and> enc n v = Inr (vals ! i)"
      using i v by auto
  qed
  define out where "out = map (\<lambda>(n, v). (idx n, vals ! idx n)) Ent"
  have dout: "distinct (map fst out)"
  proof -
    have keysE: "set (map fst Ent) = set revealedMsgNames"
    proof -
      have "fst ` set Ent = fst ` set ?rawflat" unfolding setE ..
      also have "\<dots> = set revealedMsgNames" by force
      finally show ?thesis by simp
    qed
    have "inj_on idx (set (map fst Ent))"
    proof (rule inj_onI)
      fix a b assume a: "a \<in> set (map fst Ent)" and b: "b \<in> set (map fst Ent)"
        and eq: "idx a = idx b"
      have "a \<in> set names" "b \<in> set names" using a b keysE sub by auto
      then have "names ! idx a = a" "names ! idx b = b" using idx by auto
      then show "a = b" using eq by metis
    qed
    then have "distinct (map idx (map fst Ent))"
      using dE distinct_map[of idx "map fst Ent"] by blast
    then show ?thesis unfolding out_def by (simp add: comp_def case_prod_unfold)
  qed
  have loop: "encodeRevealed_loop enc names Ent [] = Inr out"
  proof -
    have "fold (\<lambda>(n, v) acc. obj_set (the (indexOf names n)) (vals ! the (indexOf names n)) acc) Ent []
        = fold (\<lambda>(k, v) s. obj_set k v s) out []"
      unfolding out_def idx_def by (simp add: fold_map comp_def case_prod_unfold)
    also have "\<dots> = [] @ out"
      using dout by (intro fold_obj_set_append) simp_all
    finally show ?thesis using encodeRevealed_loop_ok[OF ok, of "[]"] by simp
  qed
  have er: "encodeRevealedMsgs revealedMsgsRaw msgStructure enc = Inr out"
    unfolding encodeRevealedMsgs_def Let_def nm Ent_def[symmetric] by (rule loop)
  have so: "set out = set revealedMsgs"
  proof (intro set_eqI iffI)
    fix e assume "e \<in> set out"
    then obtain n v where nv: "(n, v) \<in> set Ent" "e = (idx n, vals ! idx n)"
      unfolding out_def by auto
    then have "n \<in> set revealedMsgNames" unfolding setE by auto
    then have "idx n < length names" "names ! idx n \<in> set revealedMsgNames"
      using idx sub by auto
    then show "e \<in> set revealedMsgs" unfolding rm nv(2) by auto
  next
    fix e assume "e \<in> set revealedMsgs"
    then obtain i where i: "i < length names" "names ! i \<in> set revealedMsgNames" "e = (i, vals ! i)"
      unfolding rm by auto
    let ?n = "names ! i"
    have "indexOf names ?n = Some i" using indexOf_distinct[OF E(3) i(1)] .
    then have ii: "idx ?n = i" unfolding idx_def by simp
    have "(?n, obj_get ?F ?n) \<in> set Ent" unfolding setE using i(2) by auto
    then have "(idx ?n, vals ! idx ?n) \<in> set out" unfolding out_def by force
    then show "e \<in> set out" unfolding ii i(3) .
  qed
  have drm: "distinct (map fst revealedMsgs)" unfolding rm by (simp add: comp_def)
  have mo: "map_of out = map_of revealedMsgs"
    using map_of_inject_set[OF dout drm] so by simp
  show ?thesis using er so dout drm mo by blast
qed

theorem revealed_round_trip_witness:
  "isValidMsgStructure nested_attributes nested_attributesStruct \<and>
   distinct [''name.last'', ''city''] \<and>
   proper_paths example_js [''name.last'', ''city''] \<and>
   getRevealedAndUnrevealed example_js nested_attributes [''name.last'', ''city''] utf8_encoder
     = Inr ([(0, [78, 89]), (2, [83, 109, 105, 116, 104])], [(1, [74, 111, 104, 110]), (3, [49, 50, 51])],
            JObj [(''name'', JObj [(''last'', JStr ''Smith'')]), (''city'', JStr ''NY'')]) \<and>
   (\<exists>revealed.
      encodeRevealedMsgs (JObj [(''name'', JObj [(''last'', JStr ''Smith'')]), (''city'', JStr ''NY'')])
        nested_attributesStruct utf8_encoder = Inr revealed \<and>
      set revealed = {(0, [78, 89]), (2, [83, 109, 105, 116, 104])})"
proof -
  have h1: "isValidMsgStructure nested_attributes nested_attributesStruct"
    by (simp add: isValidMsgStructure_iff eval_defs nested_attributes_def nested_attributesStruct_def)
  have h2: "distinct [''name.last'', ''city'']" by simp
  have h3: "proper_paths example_js [''name.last'', ''city'']"
    by (simp add: proper_paths_def segs_def plain_seg_def key_name_def example_js_def decimal_key_def Object_prototype_names_def Array_prototype_names_def)
  have h4: "getRevealedAndUnrevealed example_js nested_attributes [''name.last'', ''city''] utf8_encoder
     = Inr ([(0, [78, 89]), (2, [83, 109, 105, 116, 104])], [(1, [74, 111, 104, 110]), (3, [49, 50, 51])],
            JObj [(''name'', JObj [(''last'', JStr ''Smith'')]), (''city'', JStr ''NY'')])"
    by (simp add: eval_defs nested_attributes_def)
  show ?thesis
    using revealed_round_trip[OF h1 h2 h3 h4] h1 h2 h3 h4 by auto
qed

text \<open>
  The claim as it was stated fails where a property name contains the delimiter: with
  the names \<open>a\<close> and \<open>a.b\<close> revealed, \<^verbatim>\<open>unflatten\<close> keeps \<open>a\<close> only, and the verifier's map
  misses the entry of \<open>a.b\<close>.
\<close>

theorem revealed_round_trip_dotted_name:
  "isValidMsgStructure dotted_attributes dotted_attributesStruct \<and>
   getRevealedAndUnrevealed example_js dotted_attributes [''a'', ''a.b''] utf8_encoder
     = Inr ([(0, [120]), (1, [121])], [], JObj [(''a'', JStr ''x'')]) \<and>
   encodeRevealedMsgs (JObj [(''a'', JStr ''x'')]) dotted_attributesStruct utf8_encoder
     = Inr [(0, [120])]"
  by (simp add: isValidMsgStructure_iff eval_defs dotted_attributes_def dotted_attributesStruct_def
      encodeRevealedMsgs_def)


end
